theory Spec2Isabelle
  imports Main "HOL-Library.List_Lexorder"
begin

section \<open>Failure kinds\<close>

text \<open>
  The container has four ways of not returning a value. \<open>At\<close> throws
  \<^verbatim>\<open>std::out_of_range\<close> (the spec's IndexOutOfRange). The \<^verbatim>\<open>assert\<close>s of
  \<^verbatim>\<open>operator[]\<close>, \<^verbatim>\<open>PopBack\<close>, \<^verbatim>\<open>Insert\<close> and \<^verbatim>\<open>Erase\<close> terminate the program
  (the spec's ContractViolation). A raw access through \<^verbatim>\<open>items_[i]\<close> or through a
  pointer of a standard algorithm that leaves the allocated block is undefined behaviour
  in C++; the model makes it the value \<open>BufferOverrun\<close>, so that no theorem can be
  proved about what such an access yields. Reading through a reference to a slot of a
  block that has been released is undefined behaviour as well, the value
  \<open>DanglingReference\<close>.
\<close>

datatype error = IndexOutOfRange | ContractViolation | BufferOverrun | DanglingReference

definition ebind :: "error + 'a \<Rightarrow> ('a \<Rightarrow> error + 'b) \<Rightarrow> error + 'b" where
  "ebind r f = (case r of Inl e \<Rightarrow> Inl e | Inr x \<Rightarrow> f x)"

section \<open>The owned block (array\_ptr.h)\<close>

text \<open>
  \<^verbatim>\<open>ArrayPtr<Type>\<close> is the exclusive owner of one heap block. Because it cannot be
  copied, no two vectors ever share a block, and the block is modelled as a value held
  by its owner: the list of its slots. The null pointer is the block with no slot.
\<close>

type_synonym 'a ArrayPtr = "'a list"

text \<open>
  Modelled from the spec: the header \<^verbatim>\<open>array_ptr.h\<close> is not among the sources. The spec's
  RawBuffer allocates \<open>n\<close> default-valued elements on construction, and \<open>n = 0\<close> gives the
  null state. \<open>d\<close> is the element type's default value \<^verbatim>\<open>Type{}\<close>.
\<close>
definition ArrayPtr_sized :: "'a \<Rightarrow> nat \<Rightarrow> 'a ArrayPtr" where
  "ArrayPtr_sized d n = replicate n d"

text \<open>
  Modelled from the spec: the default-constructed \<^verbatim>\<open>ArrayPtr\<close> (absent header) owns
  nothing.
\<close>
definition ArrayPtr_null :: "'a ArrayPtr" where
  "ArrayPtr_null = []"

text \<open>
  Modelled from the spec: moving an \<^verbatim>\<open>ArrayPtr\<close> (absent header) transfers the block and
  leaves the source in the null state. The result is (new owner, source afterwards).
\<close>
definition ArrayPtr_move :: "'a ArrayPtr \<Rightarrow> 'a ArrayPtr \<times> 'a ArrayPtr" where
  "ArrayPtr_move src = (src, ArrayPtr_null)"

text \<open>
  Modelled from the spec: \<^verbatim>\<open>ArrayPtr::swap\<close> (absent header) exchanges the blocks of two
  owners.
\<close>
definition ArrayPtr_swap :: "'a ArrayPtr \<Rightarrow> 'a ArrayPtr \<Rightarrow> 'a ArrayPtr \<times> 'a ArrayPtr" where
  "ArrayPtr_swap a b = (b, a)"

text \<open>
  Modelled from the spec: \<^verbatim>\<open>ArrayPtr::operator[]\<close> (absent header) is raw indexed access
  with no bounds check. Reading or writing a slot the block does not have is undefined
  behaviour, here \<open>BufferOverrun\<close>.
\<close>
definition slot_read :: "'a ArrayPtr \<Rightarrow> nat \<Rightarrow> error + 'a" where
  "slot_read buf i = (if i < length buf then Inr (buf ! i) else Inl BufferOverrun)"

definition slot_write :: "'a ArrayPtr \<Rightarrow> nat \<Rightarrow> 'a \<Rightarrow> error + 'a ArrayPtr" where
  "slot_write buf i x = (if i < length buf then Inr (buf[i := x]) else Inl BufferOverrun)"

section \<open>The standard algorithms the container calls\<close>

text \<open>
  Pointers into a block are slot indices. Each algorithm is the loop of the standard
  library, one slot per iteration; a range whose end lies before its start, or a slot
  outside the block, is undefined behaviour.
\<close>

text \<open>\<^verbatim>\<open>std::fill(first, last, x)\<close>: \<^verbatim>\<open>for (; first != last; ++first) *first = x;\<close>\<close>
function std_fill :: "'a ArrayPtr \<Rightarrow> nat \<Rightarrow> nat \<Rightarrow> 'a \<Rightarrow> error + 'a ArrayPtr" where
  "std_fill buf first lst x =
     (if first = lst then Inr buf
      else if lst < first \<or> length buf \<le> first then Inl BufferOverrun
      else std_fill (buf[first := x]) (Suc first) lst x)"
  by pat_completeness auto
termination
  by (relation "measure (\<lambda>(buf, first, lst, x). lst - first)") auto

text \<open>
  \<^verbatim>\<open>std::copy(first, last, d_first)\<close> from one sequence into a block:
  \<^verbatim>\<open>for (; first != last; ++first, ++d_first) *d_first = *first;\<close>
\<close>
function std_copy :: "'a list \<Rightarrow> nat \<Rightarrow> nat \<Rightarrow> 'a ArrayPtr \<Rightarrow> nat \<Rightarrow> error + 'a ArrayPtr" where
  "std_copy src first lst dst d_first =
     (if first = lst then Inr dst
      else if lst < first \<or> length src \<le> first \<or> length dst \<le> d_first then Inl BufferOverrun
      else std_copy src (Suc first) lst (dst[d_first := src ! first]) (Suc d_first))"
  by pat_completeness auto
termination
  by (relation "measure (\<lambda>(src, first, lst, dst, d_first). lst - first)") auto

text \<open>
  \<^verbatim>\<open>std::move(first, last, d_first)\<close> from one block into another:
  \<^verbatim>\<open>for (; first != last; ++first, ++d_first) *d_first = std::move(*first);\<close>
  A move assignment leaves its source in a valid state the element type chooses;
  \<open>mv x\<close> is that state for an element that held \<open>x\<close> (the identity for \<^verbatim>\<open>int\<close>).
  The result is (source block afterwards, destination block).
\<close>
function std_move ::
  "('a \<Rightarrow> 'a) \<Rightarrow> 'a ArrayPtr \<Rightarrow> nat \<Rightarrow> nat \<Rightarrow> 'a ArrayPtr \<Rightarrow> nat \<Rightarrow> error + 'a ArrayPtr \<times> 'a ArrayPtr" where
  "std_move mv src first lst dst d_first =
     (if first = lst then Inr (src, dst)
      else if lst < first \<or> length src \<le> first \<or> length dst \<le> d_first then Inl BufferOverrun
      else std_move mv (src[first := mv (src ! first)]) (Suc first) lst
             (dst[d_first := src ! first]) (Suc d_first))"
  by pat_completeness auto
termination
  by (relation "measure (\<lambda>(mv, src, first, lst, dst, d_first). lst - first)") auto

text \<open>
  The same \<^verbatim>\<open>std::move(first, last, d_first)\<close> with source and destination in one block
  (\<^verbatim>\<open>Erase\<close>): each step writes the destination slot and leaves the moved-from state in
  the source slot.
\<close>
function std_move_inplace ::
  "('a \<Rightarrow> 'a) \<Rightarrow> 'a ArrayPtr \<Rightarrow> nat \<Rightarrow> nat \<Rightarrow> nat \<Rightarrow> error + 'a ArrayPtr" where
  "std_move_inplace mv buf first lst d_first =
     (if first = lst then Inr buf
      else if lst < first \<or> length buf \<le> first \<or> length buf \<le> d_first then Inl BufferOverrun
      else std_move_inplace mv ((buf[first := mv (buf ! first)])[d_first := buf ! first])
             (Suc first) lst (Suc d_first))"
  by pat_completeness auto
termination
  by (relation "measure (\<lambda>(mv, buf, first, lst, d_first). lst - first)") auto

text \<open>
  \<^verbatim>\<open>std::move_backward(first, last, d_last)\<close> inside one block (\<^verbatim>\<open>Insert\<close>):
  \<^verbatim>\<open>while (first != last) *(--d_last) = std::move(*(--last));\<close>
\<close>
function std_move_backward ::
  "('a \<Rightarrow> 'a) \<Rightarrow> 'a ArrayPtr \<Rightarrow> nat \<Rightarrow> nat \<Rightarrow> nat \<Rightarrow> error + 'a ArrayPtr" where
  "std_move_backward mv buf first lst d_last =
     (if first = lst then Inr buf
      else if lst < first \<or> length buf < lst \<or> length buf < d_last \<or> d_last = 0
        then Inl BufferOverrun
      else std_move_backward mv
             ((buf[lst - 1 := mv (buf ! (lst - 1))])[d_last - 1 := buf ! (lst - 1)])
             first (lst - 1) (d_last - 1))"
  by pat_completeness auto
termination
  by (relation "measure (\<lambda>(mv, buf, first, lst, d_last). lst - first)") auto

text \<open>
  \<^verbatim>\<open>std::equal(first1, last1, first2)\<close>:
  \<^verbatim>\<open>for (; first1 != last1; ++first1, ++first2) if (!(*first1 == *first2)) return false;\<close>
\<close>
function std_equal :: "'a list \<Rightarrow> nat \<Rightarrow> nat \<Rightarrow> 'a list \<Rightarrow> nat \<Rightarrow> error + bool" where
  "std_equal a first1 last1 b first2 =
     (if first1 = last1 then Inr True
      else if last1 < first1 \<or> length a \<le> first1 \<or> length b \<le> first2 then Inl BufferOverrun
      else if a ! first1 = b ! first2 then std_equal a (Suc first1) last1 b (Suc first2)
      else Inr False)"
  by pat_completeness auto
termination
  by (relation "measure (\<lambda>(a, first1, last1, b, first2). last1 - first1)") auto

text \<open>
  \<^verbatim>\<open>std::lexicographical_compare(first1, last1, first2, last2)\<close>:
  \<^verbatim>\<open>for (; first1 != last1 && first2 != last2; ++first1, ++first2) {
      if (*first1 < *first2) return true;
      if (*first2 < *first1) return false; }
  return first1 == last1 && first2 != last2;\<close>
\<close>
function std_lexicographical_compare ::
  "('a::ord) list \<Rightarrow> nat \<Rightarrow> nat \<Rightarrow> 'a list \<Rightarrow> nat \<Rightarrow> nat \<Rightarrow> error + bool" where
  "std_lexicographical_compare a first1 last1 b first2 last2 =
     (if first1 = last1 \<or> first2 = last2 then Inr (first1 = last1 \<and> first2 \<noteq> last2)
      else if last1 < first1 \<or> last2 < first2 \<or> length a \<le> first1 \<or> length b \<le> first2
        then Inl BufferOverrun
      else if a ! first1 < b ! first2 then Inr True
      else if b ! first2 < a ! first1 then Inr False
      else std_lexicographical_compare a (Suc first1) last1 b (Suc first2) last2)"
  by pat_completeness auto
termination
  by (relation "measure (\<lambda>(a, first1, last1, b, first2, last2). last1 - first1)") auto

declare std_fill.simps [simp del] std_copy.simps [simp del] std_move.simps [simp del]
  std_move_inplace.simps [simp del]
  std_move_backward.simps [simp del] std_equal.simps [simp del]
  std_lexicographical_compare.simps [simp del]

section \<open>The container (simple\_vector.h)\<close>

text \<open>
  \<^verbatim>\<open>size_t\<close> values are natural numbers. The one computation of the class that can leave
  the 64-bit range is the doubling \<^verbatim>\<open>capacity_ * 2\<close>, written with its wrap-around.
  (Each \<^verbatim>\<open>++size_\<close> follows a write to slot \<^verbatim>\<open>size_\<close> of an allocated block.)
\<close>

definition size_t_mul :: "nat \<Rightarrow> nat \<Rightarrow> nat" where
  "size_t_mul a b = (a * b) mod 2 ^ 64"

text \<open>\<^verbatim>\<open>std::exchange(obj, new_value)\<close>: (the value returned, \<open>obj\<close> afterwards).\<close>
definition std_exchange :: "'b \<Rightarrow> 'b \<Rightarrow> 'b \<times> 'b" where
  "std_exchange obj new_value = (obj, new_value)"

record 'a SimpleVector =
  m_items :: "'a ArrayPtr"
  m_size :: nat
  m_capacity :: nat

text \<open>\<^verbatim>\<open>struct ReserveProxyObj\<close> and the free function \<^verbatim>\<open>Reserve\<close> that builds it.\<close>
record ReserveProxyObj =
  capacity :: nat

definition Reserve_proxy :: "nat \<Rightarrow> ReserveProxyObj" where
  "Reserve_proxy capacity_to_reserve = \<lparr>capacity = capacity_to_reserve\<rparr>"

subsection \<open>Constructors\<close>

definition SimpleVector_default :: "'a SimpleVector" where
  "SimpleVector_default = \<lparr>m_items = ArrayPtr_null, m_size = 0, m_capacity = 0\<rparr>"

definition SimpleVector_sized :: "'a \<Rightarrow> nat \<Rightarrow> error + 'a SimpleVector" where
  "SimpleVector_sized d n =
     ebind (std_fill (if 0 < n then ArrayPtr_sized d n else ArrayPtr_null) 0 n d)
       (\<lambda>b. Inr \<lparr>m_items = b, m_size = n, m_capacity = n\<rparr>)"

definition SimpleVector_fill :: "'a \<Rightarrow> nat \<Rightarrow> 'a \<Rightarrow> error + 'a SimpleVector" where
  "SimpleVector_fill d n x =
     ebind (std_fill (ArrayPtr_sized d n) 0 n x)
       (\<lambda>b. Inr \<lparr>m_items = b, m_size = n, m_capacity = n\<rparr>)"

definition SimpleVector_init :: "'a \<Rightarrow> 'a list \<Rightarrow> error + 'a SimpleVector" where
  "SimpleVector_init d init =
     ebind (std_copy init 0 (length init)
              (if 0 < length init then ArrayPtr_sized d (length init) else ArrayPtr_null) 0)
       (\<lambda>b. Inr \<lparr>m_items = b, m_size = length init, m_capacity = length init\<rparr>)"

text \<open>
  The copy constructor: a block of \<^verbatim>\<open>other.size_\<close> slots, \<^verbatim>\<open>size_(other.size_)\<close>,
  \<^verbatim>\<open>capacity_(other.capacity_)\<close>, then the copy of the live elements.
\<close>
definition SimpleVector_copy :: "'a \<Rightarrow> 'a SimpleVector \<Rightarrow> error + 'a SimpleVector" where
  "SimpleVector_copy d other =
     ebind (std_copy (m_items other) 0 (m_size other)
              (if 0 < m_size other then ArrayPtr_sized d (m_size other) else ArrayPtr_null) 0)
       (\<lambda>b. Inr \<lparr>m_items = b, m_size = m_size other, m_capacity = m_capacity other\<rparr>)"

text \<open>The move constructor: (the new vector, \<open>other\<close> afterwards).\<close>
definition SimpleVector_move :: "'a SimpleVector \<Rightarrow> 'a SimpleVector \<times> 'a SimpleVector" where
  "SimpleVector_move other =
     (let (its, other_items) = ArrayPtr_move (m_items other);
          (sz, other_size) = std_exchange (m_size other) 0;
          (cp, other_capacity) = std_exchange (m_capacity other) 0
      in (\<lparr>m_items = its, m_size = sz, m_capacity = cp\<rparr>,
          \<lparr>m_items = other_items, m_size = other_size, m_capacity = other_capacity\<rparr>))"

text \<open>
  The constructor from a \<^verbatim>\<open>ReserveProxyObj\<close>: \<^verbatim>\<open>new Type[reserve.capacity]\<close> or the null
  pointer. The new slots hold default-constructed elements (for a scalar type they are
  indeterminate; no operation reads a slot at or above \<^verbatim>\<open>size_\<close> of this block before
  writing it).
\<close>
definition SimpleVector_reserve :: "'a \<Rightarrow> ReserveProxyObj \<Rightarrow> 'a SimpleVector" where
  "SimpleVector_reserve d reserve =
     \<lparr>m_items = (if capacity reserve \<noteq> 0 then replicate (capacity reserve) d else ArrayPtr_null),
      m_size = 0, m_capacity = capacity reserve\<rparr>"

subsection \<open>Queries and element access\<close>

definition GetSize :: "'a SimpleVector \<Rightarrow> nat" where
  "GetSize v = m_size v"

definition GetCapacity :: "'a SimpleVector \<Rightarrow> nat" where
  "GetCapacity v = m_capacity v"

definition IsEmpty :: "'a SimpleVector \<Rightarrow> bool" where
  "IsEmpty v = (m_size v = 0)"

text \<open>\<^verbatim>\<open>operator[]\<close>, mutable and const: the assertion, then the raw access.\<close>
definition subscript :: "'a SimpleVector \<Rightarrow> nat \<Rightarrow> error + 'a" where
  "subscript v index = (if index < m_size v then slot_read (m_items v) index else Inl ContractViolation)"

definition subscript_const :: "'a SimpleVector \<Rightarrow> nat \<Rightarrow> error + 'a" where
  "subscript_const v index =
     (if index < m_size v then slot_read (m_items v) index else Inl ContractViolation)"

text \<open>
  \<^verbatim>\<open>At\<close>, mutable and const. Neither assigns to a member, so the vector is not part of the
  result.
\<close>
definition At :: "'a SimpleVector \<Rightarrow> nat \<Rightarrow> error + 'a" where
  "At v index = (if index \<ge> m_size v then Inl IndexOutOfRange else slot_read (m_items v) index)"

definition At_const :: "'a SimpleVector \<Rightarrow> nat \<Rightarrow> error + 'a" where
  "At_const v index =
     (if index \<ge> m_size v then Inl IndexOutOfRange else slot_read (m_items v) index)"

text \<open>\<^verbatim>\<open>begin()\<close> and \<^verbatim>\<open>end()\<close> as slot indices of the block.\<close>
definition begin_it :: "'a SimpleVector \<Rightarrow> nat" where
  "begin_it v = 0"

definition end_it :: "'a SimpleVector \<Rightarrow> nat" where
  "end_it v = 0 + m_size v"

subsection \<open>Modifiers\<close>

definition Clear :: "'a SimpleVector \<Rightarrow> 'a SimpleVector" where
  "Clear v = v\<lparr>m_size := 0\<rparr>"

definition Resize :: "'a \<Rightarrow> ('a \<Rightarrow> 'a) \<Rightarrow> 'a SimpleVector \<Rightarrow> nat \<Rightarrow> error + 'a SimpleVector" where
  "Resize d mv v new_size =
     (if new_size < m_size v then Inr (v\<lparr>m_size := new_size\<rparr>)
      else if new_size \<le> m_capacity v then
        ebind (std_fill (m_items v) (m_size v) new_size d)
          (\<lambda>b. Inr (v\<lparr>m_items := b, m_size := new_size\<rparr>))
      else
        ebind (std_move mv (m_items v) 0 (m_size v) (ArrayPtr_sized d new_size) 0)
          (\<lambda>(old_data, new_data).
        ebind (std_fill new_data (m_size v) new_size d)
          (\<lambda>new_data.
        (let (its, dead) = ArrayPtr_swap old_data new_data
         in Inr (v\<lparr>m_items := its, m_size := new_size, m_capacity := new_size\<rparr>)))))"

definition Reserve :: "'a \<Rightarrow> ('a \<Rightarrow> 'a) \<Rightarrow> 'a SimpleVector \<Rightarrow> nat \<Rightarrow> error + 'a SimpleVector" where
  "Reserve d mv v new_capacity =
     (if new_capacity > m_capacity v then
        ebind (std_move mv (m_items v) 0 (m_size v) (ArrayPtr_sized d new_capacity) 0)
          (\<lambda>(old_data, new_data).
        (let (its, dead) = ArrayPtr_swap old_data new_data
         in Inr (v\<lparr>m_items := its, m_capacity := new_capacity\<rparr>)))
      else Inr v)"

definition PopBack :: "'a SimpleVector \<Rightarrow> error + 'a SimpleVector" where
  "PopBack v = (if m_size v > 0 then Inr (v\<lparr>m_size := m_size v - 1\<rparr>) else Inl ContractViolation)"

text \<open>
  \<^verbatim>\<open>PushBack\<close> takes its argument by reference (\<^verbatim>\<open>const Type&\<close> or \<^verbatim>\<open>Type&&\<close>) and reads it
  after the growth. The referenced object is either outside the vector's block, given by
  the value it holds, or a slot of the vector's own block, as in \<^verbatim>\<open>v.PushBack(v[0])\<close>.
\<close>
datatype 'a arg_ref = External 'a | Element nat

text \<open>
  Reading through the reference. \<open>released\<close> tells that the block the vector owned when
  the method was entered has been released since; \<open>buf\<close> is the vector's block.
\<close>
definition read_ref :: "bool \<Rightarrow> 'a ArrayPtr \<Rightarrow> 'a arg_ref \<Rightarrow> error + 'a" where
  "read_ref released buf r =
     (case r of
        External x \<Rightarrow> Inr x
      | Element i \<Rightarrow> if released then Inl DanglingReference else slot_read buf i)"

text \<open>
  Moving out of the referenced object: (the value read, the vector's block afterwards). An
  object outside the block is not part of the vector; a slot of the block is left in its
  moved-from state.
\<close>
definition move_ref ::
  "bool \<Rightarrow> ('a \<Rightarrow> 'a) \<Rightarrow> 'a ArrayPtr \<Rightarrow> 'a arg_ref \<Rightarrow> error + 'a \<times> 'a ArrayPtr" where
  "move_ref released mv buf r =
     (case r of
        External x \<Rightarrow> Inr (x, buf)
      | Element i \<Rightarrow>
          if released then Inl DanglingReference
          else ebind (slot_read buf i) (\<lambda>x. Inr (x, buf[i := mv x])))"

text \<open>
  \<^verbatim>\<open>PushBack(const Type&)\<close>: the growth is written out in the method; \<^verbatim>\<open>new_data\<close>, which
  owns the old block after the swap, is destroyed at the end of the \<^verbatim>\<open>if\<close> block. Then
  \<^verbatim>\<open>items_[size_] = value\<close> reads the argument.
\<close>
definition PushBack ::
  "'a \<Rightarrow> ('a \<Rightarrow> 'a) \<Rightarrow> 'a SimpleVector \<Rightarrow> 'a arg_ref \<Rightarrow> error + 'a SimpleVector" where
  "PushBack d mv v arg =
     ebind
       (if m_size v \<ge> m_capacity v then
          (let c = max (size_t_mul (m_capacity v) 2) 1 in
           ebind (std_move mv (m_items v) 0 (m_size v) (ArrayPtr_sized d c) 0)
             (\<lambda>(old_data, new_data).
           (let (its, dead) = ArrayPtr_swap old_data new_data
            in Inr (v\<lparr>m_items := its, m_capacity := c\<rparr>, True))))
        else Inr (v, False))
       (\<lambda>(v1, released).
          ebind (read_ref released (m_items v1) arg)
            (\<lambda>x. ebind (slot_write (m_items v1) (m_size v1) x)
               (\<lambda>b. Inr (v1\<lparr>m_items := b, m_size := m_size v1 + 1\<rparr>))))"

text \<open>
  \<^verbatim>\<open>PushBack(Type&&)\<close>: the growth goes through \<^verbatim>\<open>Reserve\<close>, which releases the old block
  exactly when the requested capacity exceeds the current one. Then
  \<^verbatim>\<open>items_[size_] = std::move(value)\<close> moves out of the argument.
\<close>
definition PushBack_rvalue ::
  "'a \<Rightarrow> ('a \<Rightarrow> 'a) \<Rightarrow> 'a SimpleVector \<Rightarrow> 'a arg_ref \<Rightarrow> error + 'a SimpleVector" where
  "PushBack_rvalue d mv v arg =
     ebind
       (if m_size v \<ge> m_capacity v then
          ebind (Reserve d mv v (max (size_t_mul (m_capacity v) 2) 1))
            (\<lambda>v1. Inr (v1, max (size_t_mul (m_capacity v) 2) 1 > m_capacity v))
        else Inr (v, False))
       (\<lambda>(v1, released).
          ebind (move_ref released mv (m_items v1) arg)
            (\<lambda>(x, buf). ebind (slot_write buf (m_size v1) x)
               (\<lambda>b. Inr (v1\<lparr>m_items := b, m_size := m_size v1 + 1\<rparr>))))"

text \<open>
  \<^verbatim>\<open>Insert(pos, value)\<close>. The iterator \<open>pos\<close> is the slot index \<^verbatim>\<open>pos - begin()\<close>, so
  \<^verbatim>\<open>pos >= begin()\<close> holds of every argument. The result is the vector and the returned
  iterator \<^verbatim>\<open>items_.Get() + index\<close>, again as a slot index.
\<close>
definition Insert ::
  "'a \<Rightarrow> ('a \<Rightarrow> 'a) \<Rightarrow> 'a SimpleVector \<Rightarrow> nat \<Rightarrow> 'a \<Rightarrow> error + 'a SimpleVector \<times> nat" where
  "Insert d mv v pos x =
     (if pos \<le> end_it v then
        (let index = pos - begin_it v in
         ebind
           (if m_size v \<ge> m_capacity v then
              Reserve d mv v (max (size_t_mul (m_capacity v) 2) 1)
            else
              ebind (std_move_backward mv (m_items v) index (m_size v) (m_size v + 1))
                (\<lambda>b. Inr (v\<lparr>m_items := b\<rparr>)))
           (\<lambda>v1. ebind (slot_write (m_items v1) index x)
              (\<lambda>b. Inr (v1\<lparr>m_items := b, m_size := m_size v1 + 1\<rparr>, index))))
      else Inl ContractViolation)"

text \<open>\<^verbatim>\<open>Erase(pos)\<close>, with the iterators as slot indices.\<close>
definition Erase :: "('a \<Rightarrow> 'a) \<Rightarrow> 'a SimpleVector \<Rightarrow> nat \<Rightarrow> error + 'a SimpleVector \<times> nat" where
  "Erase mv v pos =
     (if pos < end_it v then
        (let index = pos - begin_it v in
         ebind (std_move_inplace mv (m_items v) (index + 1) (m_size v) index)
           (\<lambda>b. Inr (v\<lparr>m_items := b, m_size := m_size v - 1\<rparr>, index)))
      else Inl ContractViolation)"

text \<open>\<^verbatim>\<open>swap(other)\<close>: (this vector afterwards, \<open>other\<close> afterwards).\<close>
definition swap_v :: "'a SimpleVector \<Rightarrow> 'a SimpleVector \<Rightarrow> 'a SimpleVector \<times> 'a SimpleVector" where
  "swap_v v other =
     (let (its, other_items) = ArrayPtr_swap (m_items v) (m_items other)
      in (\<lparr>m_items = its, m_size = m_size other, m_capacity = m_capacity other\<rparr>,
          \<lparr>m_items = other_items, m_size = m_size v, m_capacity = m_capacity v\<rparr>))"

subsection \<open>Comparison operators\<close>

definition cbegin :: "'a SimpleVector \<Rightarrow> nat" where
  "cbegin v = 0"

definition cend :: "'a SimpleVector \<Rightarrow> nat" where
  "cend v = 0 + m_size v"

definition op_eq :: "'a SimpleVector \<Rightarrow> 'a SimpleVector \<Rightarrow> error + bool" where
  "op_eq lhs rhs =
     (if GetSize lhs = GetSize rhs
      then std_equal (m_items lhs) (cbegin lhs) (cend lhs) (m_items rhs) (cbegin rhs)
      else Inr False)"

definition op_ne :: "'a SimpleVector \<Rightarrow> 'a SimpleVector \<Rightarrow> error + bool" where
  "op_ne lhs rhs = ebind (op_eq lhs rhs) (\<lambda>r. Inr (\<not> r))"

definition op_lt :: "('a::ord) SimpleVector \<Rightarrow> 'a SimpleVector \<Rightarrow> error + bool" where
  "op_lt lhs rhs =
     std_lexicographical_compare (m_items lhs) (cbegin lhs) (cend lhs)
       (m_items rhs) (cbegin rhs) (cend rhs)"

definition op_le :: "('a::ord) SimpleVector \<Rightarrow> 'a SimpleVector \<Rightarrow> error + bool" where
  "op_le lhs rhs = ebind (op_lt rhs lhs) (\<lambda>r. Inr (\<not> r))"

definition op_gt :: "('a::ord) SimpleVector \<Rightarrow> 'a SimpleVector \<Rightarrow> error + bool" where
  "op_gt lhs rhs = op_lt rhs lhs"

definition op_ge :: "('a::ord) SimpleVector \<Rightarrow> 'a SimpleVector \<Rightarrow> error + bool" where
  "op_ge lhs rhs = ebind (op_lt lhs rhs) (\<lambda>r. Inr (\<not> r))"

section \<open>Objects and their addresses\<close>

text \<open>
  The two assignment operators compare \<^verbatim>\<open>this\<close> with \<^verbatim>\<open>&rhs\<close>, so they are modelled on a
  store of vector objects indexed by address; two references alias exactly when the
  addresses are equal.
\<close>

type_synonym 'a store = "nat \<Rightarrow> 'a SimpleVector"

definition assign_copy :: "'a \<Rightarrow> 'a store \<Rightarrow> nat \<Rightarrow> nat \<Rightarrow> error + 'a store" where
  "assign_copy d s this rhs =
     (if this \<noteq> rhs then
        ebind (SimpleVector_copy d (s rhs))
          (\<lambda>temp. (let (t, dead) = swap_v (s this) temp in Inr (s(this := t))))
      else Inr s)"

definition assign_move :: "'a store \<Rightarrow> nat \<Rightarrow> nat \<Rightarrow> 'a store" where
  "assign_move s this rhs =
     (if this \<noteq> rhs then
        (let (its, rhs_items) = ArrayPtr_swap (m_items (s this)) (m_items (s rhs));
             (sz, rhs_size) = std_exchange (m_size (s rhs)) 0;
             (cp, rhs_capacity) = std_exchange (m_capacity (s rhs)) 0
         in s(this := \<lparr>m_items = its, m_size = sz, m_capacity = cp\<rparr>,
              rhs := \<lparr>m_items = rhs_items, m_size = rhs_size, m_capacity = rhs_capacity\<rparr>))
      else s)"

text \<open>
  The public operations that construct or change a vector, each naming the objects it
  works on by address. A constructor puts the new object at its address; an object
  cannot be the argument of its own copy or move constructor. The value a \<^verbatim>\<open>PushBack\<close>
  command pushes is an object outside the blocks of the store's vectors.
\<close>

datatype 'a cmd =
    New_default nat
  | New_sized nat nat
  | New_fill nat nat 'a
  | New_init nat "'a list"
  | New_copy nat nat
  | New_move nat nat
  | New_reserve nat nat
  | Assign_copy nat nat
  | Assign_move nat nat
  | Call_Clear nat
  | Call_Resize nat nat
  | Call_Reserve nat nat
  | Call_PopBack nat
  | Call_PushBack nat 'a
  | Call_PushBack_rvalue nat 'a
  | Call_Insert nat nat 'a
  | Call_Erase nat nat
  | Call_swap nat nat

fun exec :: "'a \<Rightarrow> ('a \<Rightarrow> 'a) \<Rightarrow> 'a cmd \<Rightarrow> 'a store \<Rightarrow> error + 'a store" where
  "exec d mv (New_default a) s = Inr (s(a := SimpleVector_default))"
| "exec d mv (New_sized a n) s = ebind (SimpleVector_sized d n) (\<lambda>v. Inr (s(a := v)))"
| "exec d mv (New_fill a n x) s = ebind (SimpleVector_fill d n x) (\<lambda>v. Inr (s(a := v)))"
| "exec d mv (New_init a init) s = ebind (SimpleVector_init d init) (\<lambda>v. Inr (s(a := v)))"
| "exec d mv (New_copy a b) s =
     (if a = b then Inl ContractViolation
      else ebind (SimpleVector_copy d (s b)) (\<lambda>v. Inr (s(a := v))))"
| "exec d mv (New_move a b) s =
     (if a = b then Inl ContractViolation
      else (let (v, other) = SimpleVector_move (s b) in Inr (s(a := v, b := other))))"
| "exec d mv (New_reserve a n) s = Inr (s(a := SimpleVector_reserve d (Reserve_proxy n)))"
| "exec d mv (Assign_copy a b) s = assign_copy d s a b"
| "exec d mv (Assign_move a b) s = Inr (assign_move s a b)"
| "exec d mv (Call_Clear a) s = Inr (s(a := Clear (s a)))"
| "exec d mv (Call_Resize a n) s = ebind (Resize d mv (s a) n) (\<lambda>v. Inr (s(a := v)))"
| "exec d mv (Call_Reserve a n) s = ebind (Reserve d mv (s a) n) (\<lambda>v. Inr (s(a := v)))"
| "exec d mv (Call_PopBack a) s = ebind (PopBack (s a)) (\<lambda>v. Inr (s(a := v)))"
| "exec d mv (Call_PushBack a x) s =
     ebind (PushBack d mv (s a) (External x)) (\<lambda>v. Inr (s(a := v)))"
| "exec d mv (Call_PushBack_rvalue a x) s =
     ebind (PushBack_rvalue d mv (s a) (External x)) (\<lambda>v. Inr (s(a := v)))"
| "exec d mv (Call_Insert a pos x) s =
     ebind (Insert d mv (s a) pos x) (\<lambda>(v, it). Inr (s(a := v)))"
| "exec d mv (Call_Erase a pos) s = ebind (Erase mv (s a) pos) (\<lambda>(v, it). Inr (s(a := v)))"
| "exec d mv (Call_swap a b) s =
     (let (v, other) = swap_v (s a) (s b) in Inr (s(a := v, b := other)))"

text \<open>A sequence of operations stops at the first failure.\<close>
fun exec_all :: "'a \<Rightarrow> ('a \<Rightarrow> 'a) \<Rightarrow> 'a cmd list \<Rightarrow> 'a store \<Rightarrow> error + 'a store" where
  "exec_all d mv [] s = Inr s"
| "exec_all d mv (c # cs) s = ebind (exec d mv c s) (exec_all d mv cs)"


section \<open>Representation predicates\<close>

text \<open>The live elements: the slots \<open>[0, size)\<close> of the block, in index order.\<close>
definition elems :: "'a SimpleVector \<Rightarrow> 'a list" where
  "elems v = take (m_size v) (m_items v)"


text \<open>The class invariant: \<open>size \<le> capacity\<close>, and the capacity is that of the block.\<close>
definition well_formed :: "'a SimpleVector \<Rightarrow> bool" where
  "well_formed v = (m_size v \<le> m_capacity v \<and> length (m_items v) = m_capacity v)"

text \<open>The invariant \<open>size \<le> capacity\<close> of every object of a store.\<close>
definition store_inv :: "'a store \<Rightarrow> bool" where
  "store_inv s = (\<forall>a. m_size (s a) \<le> m_capacity (s a))"

definition store_well_formed :: "'a store \<Rightarrow> bool" where
  "store_well_formed s = (\<forall>a. well_formed (s a))"

text \<open>
  The preconditions the operations state: the assertions of \<^verbatim>\<open>PopBack\<close>, \<^verbatim>\<open>Insert\<close> and
  \<^verbatim>\<open>Erase\<close>, a constructor argument that is another object, and, for the two operations
  that double the capacity, fewer than \<open>2^63\<close> elements, so that the doubling of a full
  vector stays a \<^verbatim>\<open>size_t\<close>.
\<close>
fun pre :: "'a cmd \<Rightarrow> 'a store \<Rightarrow> bool" where
  "pre (New_copy a b) s = (a \<noteq> b)"
| "pre (New_move a b) s = (a \<noteq> b)"
| "pre (Call_PopBack a) s = (0 < m_size (s a))"
| "pre (Call_PushBack a x) s = (m_size (s a) < 2 ^ 63)"
| "pre (Call_PushBack_rvalue a x) s = (m_size (s a) < 2 ^ 63)"
| "pre (Call_Insert a pos x) s = (pos \<le> m_size (s a) \<and> m_size (s a) < 2 ^ 63)"
| "pre (Call_Erase a pos) s = (pos < m_size (s a))"
| "pre c s = True"

text \<open>
  What every operation other than the copy constructor keeps: \<open>size \<le> capacity\<close>, and the
  capacity field is the slot count of the block or is 0 (the source of a move assignment
  holds the target's former block under capacity 0).
\<close>
definition valid :: "'a SimpleVector \<Rightarrow> bool" where
  "valid v = (m_size v \<le> m_capacity v \<and>
              (length (m_items v) = m_capacity v \<or> m_capacity v = 0))"

definition store_valid :: "'a store \<Rightarrow> bool" where
  "store_valid s = (\<forall>a. valid (s a))"

text \<open>The operations that run the copy constructor.\<close>
fun copies :: "'a cmd \<Rightarrow> bool" where
  "copies (New_copy a b) = True"
| "copies (Assign_copy a b) = True"
| "copies c = False"

text \<open>The object a move assignment between two distinct objects takes from.\<close>
fun move_source :: "'a cmd \<Rightarrow> nat option" where
  "move_source (Assign_move a b) = (if a = b then None else Some b)"
| "move_source c = None"

text \<open>
  The object whose state an object holds after an operation, or \<open>None\<close> for an object
  that the operation has constructed (or that a move constructor has left empty):
  \<^verbatim>\<open>swap\<close> exchanges the states of its two objects, and the target of a move holds the state
  of the source; every other object holds its own state, changed or not.
\<close>
fun origin :: "'a cmd \<Rightarrow> nat \<Rightarrow> nat option" where
  "origin (New_default x) a = (if a = x then None else Some a)"
| "origin (New_sized x n) a = (if a = x then None else Some a)"
| "origin (New_fill x n v) a = (if a = x then None else Some a)"
| "origin (New_init x init) a = (if a = x then None else Some a)"
| "origin (New_copy x y) a = (if a = x then None else Some a)"
| "origin (New_reserve x n) a = (if a = x then None else Some a)"
| "origin (New_move x y) a = (if a = x then Some y else if a = y then None else Some a)"
| "origin (Assign_move x y) a = (if a = x then Some y else Some a)"
| "origin (Call_swap x y) a = (if a = x then Some y else if a = y then Some x else Some a)"
| "origin c a = Some a"

text \<open>The store in which every address holds a default-constructed vector.\<close>
definition empty_store :: "'a store" where
  "empty_store = (\<lambda>a. SimpleVector_default)"

section \<open>The loops of the standard algorithms\<close>

lemma std_fill_eq:
  "first \<le> lst \<Longrightarrow> lst \<le> length buf \<Longrightarrow>
   std_fill buf first lst x = Inr (take first buf @ replicate (lst - first) x @ drop lst buf)"
proof (induction buf first lst x rule: std_fill.induct)
  case (1 buf first lst x)
  show ?case
  proof (cases "first = lst")
    case True
    then show ?thesis by (simp add: std_fill.simps)
  next
    case False
    with "1.prems" have lt: "first < lst" by simp
    have step: "std_fill buf first lst x = std_fill (buf[first := x]) (Suc first) lst x"
      using lt "1.prems" by (subst std_fill.simps) simp
    have ih: "std_fill (buf[first := x]) (Suc first) lst x =
        Inr (take (Suc first) (buf[first := x]) @ replicate (lst - Suc first) x
             @ drop lst (buf[first := x]))"
      using "1.IH" False lt "1.prems" by simp
    have a: "take (Suc first) (buf[first := x]) = take first buf @ [x]"
      using lt "1.prems" by (simp add: take_Suc_conv_app_nth)
    have b: "drop lst (buf[first := x]) = drop lst buf"
      using lt by simp
    have c: "replicate (lst - first) x = x # replicate (lst - Suc first) x"
      using lt by (metis Suc_diff_Suc replicate_Suc)
    show ?thesis unfolding step ih a b c by simp
  qed
qed

lemma std_copy_nth:
  "first \<le> lst \<Longrightarrow> lst \<le> length src \<Longrightarrow> lst \<le> length dst \<Longrightarrow>
   \<exists>r. std_copy src first lst dst first = Inr r \<and> length r = length dst \<and>
       (\<forall>i < length dst. r ! i = (if first \<le> i \<and> i < lst then src ! i else dst ! i))"
proof (induction "lst - first" arbitrary: first dst)
  case 0
  then have "first = lst" by simp
  then show ?case by (auto simp: std_copy.simps)
next
  case (Suc n)
  then have lt: "first < lst" by simp
  let ?dst = "dst[first := src ! first]"
  have step: "std_copy src first lst dst first = std_copy src (Suc first) lst ?dst (Suc first)"
    using lt Suc.prems by (subst std_copy.simps) simp
  have "n = lst - Suc first" using Suc.hyps(2) by simp
  from Suc.hyps(1)[OF this, of ?dst] lt Suc.prems
  obtain r where r: "std_copy src (Suc first) lst ?dst (Suc first) = Inr r"
    "length r = length dst"
    "\<forall>i < length dst. r ! i = (if Suc first \<le> i \<and> i < lst then src ! i else ?dst ! i)"
    by auto
  have "\<forall>i < length dst. r ! i = (if first \<le> i \<and> i < lst then src ! i else dst ! i)"
  proof (intro allI impI)
    fix i assume i: "i < length dst"
    show "r ! i = (if first \<le> i \<and> i < lst then src ! i else dst ! i)"
      using r(3) i lt by (cases "i = first") auto
  qed
  then show ?case unfolding step using r(1,2) by simp
qed

lemma std_move_nth:
  "first \<le> lst \<Longrightarrow> lst \<le> length src \<Longrightarrow> lst \<le> length dst \<Longrightarrow>
   \<exists>old r. std_move mv src first lst dst first = Inr (old, r) \<and> length r = length dst \<and>
       (\<forall>i < length dst. r ! i = (if first \<le> i \<and> i < lst then src ! i else dst ! i))"
proof (induction "lst - first" arbitrary: first src dst)
  case 0
  then have "first = lst" by simp
  then show ?case by (auto simp: std_move.simps)
next
  case (Suc n)
  then have lt: "first < lst" by simp
  let ?src = "src[first := mv (src ! first)]"
  let ?dst = "dst[first := src ! first]"
  have step: "std_move mv src first lst dst first = std_move mv ?src (Suc first) lst ?dst (Suc first)"
    using lt Suc.prems by (subst std_move.simps) simp
  have "n = lst - Suc first" using Suc.hyps(2) by simp
  from Suc.hyps(1)[OF this, of ?src ?dst] lt Suc.prems
  obtain old r where r: "std_move mv ?src (Suc first) lst ?dst (Suc first) = Inr (old, r)"
    "length r = length dst"
    "\<forall>i < length dst. r ! i = (if Suc first \<le> i \<and> i < lst then ?src ! i else ?dst ! i)"
    by auto
  have "\<forall>i < length dst. r ! i = (if first \<le> i \<and> i < lst then src ! i else dst ! i)"
  proof (intro allI impI)
    fix i assume i: "i < length dst"
    show "r ! i = (if first \<le> i \<and> i < lst then src ! i else dst ! i)"
      using r(3) i lt by (cases "i = first") auto
  qed
  then show ?case unfolding step using r(1,2) by simp
qed

lemma std_move_inplace_nth:
  "Suc d \<le> lst \<Longrightarrow> lst \<le> length buf \<Longrightarrow>
   \<exists>r. std_move_inplace mv buf (Suc d) lst d = Inr r \<and> length r = length buf \<and>
       (\<forall>i. i < d \<longrightarrow> r ! i = buf ! i) \<and>
       (\<forall>i. d \<le> i \<and> Suc i < lst \<longrightarrow> r ! i = buf ! Suc i) \<and>
       (\<forall>i. lst \<le> i \<longrightarrow> r ! i = buf ! i)"
proof (induction "lst - Suc d" arbitrary: d buf)
  case 0
  then have "Suc d = lst" by simp
  then show ?case by (auto simp: std_move_inplace.simps)
next
  case (Suc n)
  then have lt: "Suc d < lst" by simp
  let ?b = "(buf[Suc d := mv (buf ! Suc d)])[d := buf ! Suc d]"
  have step: "std_move_inplace mv buf (Suc d) lst d = std_move_inplace mv ?b (Suc (Suc d)) lst (Suc d)"
    using lt Suc.prems by (subst std_move_inplace.simps) simp
  have "n = lst - Suc (Suc d)" using Suc.hyps(2) by simp
  from Suc.hyps(1)[OF this, of ?b] lt Suc.prems
  obtain r where r: "std_move_inplace mv ?b (Suc (Suc d)) lst (Suc d) = Inr r"
    "length r = length buf"
    "\<forall>i. i < Suc d \<longrightarrow> r ! i = ?b ! i"
    "\<forall>i. Suc d \<le> i \<and> Suc i < lst \<longrightarrow> r ! i = ?b ! Suc i"
    "\<forall>i. lst \<le> i \<longrightarrow> r ! i = ?b ! i"
    by auto
  have a: "\<forall>i. i < d \<longrightarrow> r ! i = buf ! i" using r(3) by simp
  have b: "\<forall>i. d \<le> i \<and> Suc i < lst \<longrightarrow> r ! i = buf ! Suc i"
  proof (intro allI impI)
    fix i assume i: "d \<le> i \<and> Suc i < lst"
    show "r ! i = buf ! Suc i"
    proof (cases "i = d")
      case True
      then show ?thesis using r(3) lt Suc.prems by simp
    next
      case False
      then show ?thesis using r(4) i by simp
    qed
  qed
  have c: "\<forall>i. lst \<le> i \<longrightarrow> r ! i = buf ! i" using r(5) lt by simp
  show ?case unfolding step using r(1,2) a b c by simp
qed

lemma std_move_backward_nth:
  "first \<le> lst \<Longrightarrow> Suc lst \<le> length buf \<Longrightarrow>
   \<exists>r. std_move_backward mv buf first lst (Suc lst) = Inr r \<and> length r = length buf \<and>
       (\<forall>i. i < first \<longrightarrow> r ! i = buf ! i) \<and>
       (\<forall>i. first < i \<and> i \<le> lst \<longrightarrow> r ! i = buf ! (i - 1)) \<and>
       (\<forall>i. lst < i \<longrightarrow> r ! i = buf ! i)"
proof (induction "lst - first" arbitrary: lst buf)
  case 0
  then have "first = lst" by simp
  then show ?case by (auto simp: std_move_backward.simps)
next
  case (Suc n)
  then have lt: "first < lst" by simp
  then obtain l where l: "lst = Suc l" by (cases lst) auto
  let ?b = "(buf[l := mv (buf ! l)])[lst := buf ! l]"
  have step: "std_move_backward mv buf first lst (Suc lst) = std_move_backward mv ?b first l (Suc l)"
    using lt Suc.prems l by (subst std_move_backward.simps) simp
  have "n = l - first" using Suc.hyps(2) l by simp
  from Suc.hyps(1)[OF this, of ?b] lt Suc.prems l
  obtain r where r: "std_move_backward mv ?b first l (Suc l) = Inr r"
    "length r = length buf"
    "\<forall>i. i < first \<longrightarrow> r ! i = ?b ! i"
    "\<forall>i. first < i \<and> i \<le> l \<longrightarrow> r ! i = ?b ! (i - 1)"
    "\<forall>i. l < i \<longrightarrow> r ! i = ?b ! i"
    by auto
  have a: "\<forall>i. i < first \<longrightarrow> r ! i = buf ! i" using r(3) lt l by simp
  have b: "\<forall>i. first < i \<and> i \<le> lst \<longrightarrow> r ! i = buf ! (i - 1)"
  proof (intro allI impI)
    fix i assume i: "first < i \<and> i \<le> lst"
    show "r ! i = buf ! (i - 1)"
    proof (cases "i = lst")
      case True
      then show ?thesis using r(5) l Suc.prems by simp
    next
      case False
      then have "i \<le> l" using i l by simp
      then show ?thesis using r(4) i l by auto
    qed
  qed
  have c: "\<forall>i. lst < i \<longrightarrow> r ! i = buf ! i" using r(5) l by simp
  show ?case unfolding step using r(1,2) a b c by simp
qed

lemma std_copy_eq:
  assumes "lst \<le> length src" "lst \<le> length dst"
  shows "std_copy src 0 lst dst 0 = Inr (take lst src @ drop lst dst)"
proof -
  from std_copy_nth[of 0 lst src dst] assms
  obtain r where r: "std_copy src 0 lst dst 0 = Inr r" "length r = length dst"
    "\<forall>i < length dst. r ! i = (if i < lst then src ! i else dst ! i)" by auto
  have "r = take lst src @ drop lst dst"
    using r(2,3) assms by (intro nth_equalityI) (auto simp: nth_append min_def)
  then show ?thesis using r(1) by simp
qed

lemma std_move_eq:
  assumes "lst \<le> length src" "lst \<le> length dst"
  shows "\<exists>old. std_move mv src 0 lst dst 0 = Inr (old, take lst src @ drop lst dst)"
proof -
  from std_move_nth[of 0 lst src dst mv] assms
  obtain old r where r: "std_move mv src 0 lst dst 0 = Inr (old, r)" "length r = length dst"
    "\<forall>i < length dst. r ! i = (if i < lst then src ! i else dst ! i)" by auto
  have "r = take lst src @ drop lst dst"
    using r(2,3) assms by (intro nth_equalityI) (auto simp: nth_append min_def)
  then show ?thesis using r(1) by simp
qed

lemma std_move_inplace_eq:
  assumes "Suc d \<le> lst" "lst \<le> length buf"
  shows "\<exists>r. std_move_inplace mv buf (Suc d) lst d = Inr r \<and> length r = length buf \<and>
       take (lst - 1) r = take d buf @ drop (Suc d) (take lst buf)"
proof -
  from std_move_inplace_nth[OF assms, of mv]
  obtain r where r: "std_move_inplace mv buf (Suc d) lst d = Inr r" "length r = length buf"
    "\<forall>i. i < d \<longrightarrow> r ! i = buf ! i" "\<forall>i. d \<le> i \<and> Suc i < lst \<longrightarrow> r ! i = buf ! Suc i"
    by auto
  have "take (lst - 1) r = take d buf @ drop (Suc d) (take lst buf)"
  proof (rule nth_equalityI)
    show "length (take (lst - 1) r) = length (take d buf @ drop (Suc d) (take lst buf))"
      using r(2) assms by simp
  next
    fix i assume "i < length (take (lst - 1) r)"
    then have i: "Suc i < lst" using r(2) assms by simp
    show "take (lst - 1) r ! i = (take d buf @ drop (Suc d) (take lst buf)) ! i"
    proof (cases "i < d")
      case True
      then show ?thesis using i r(3) assms by (simp add: nth_append)
    next
      case False
      then have e: "Suc d + (i - d) = Suc i" by simp
      have "r ! i = buf ! Suc i" using r(4) False i by simp
      then show ?thesis using i False assms by (simp add: nth_append e min_def)
    qed
  qed
  then show ?thesis using r(1,2) by simp
qed

lemma std_move_backward_eq:
  assumes "first \<le> lst" "Suc lst \<le> length buf"
  shows "\<exists>r. std_move_backward mv buf first lst (Suc lst) = Inr r \<and> length r = length buf \<and>
       take (Suc lst) (r[first := x]) = take first buf @ x # drop first (take lst buf)"
proof -
  from std_move_backward_nth[OF assms, of mv]
  obtain r where r: "std_move_backward mv buf first lst (Suc lst) = Inr r" "length r = length buf"
    "\<forall>i. i < first \<longrightarrow> r ! i = buf ! i" "\<forall>i. first < i \<and> i \<le> lst \<longrightarrow> r ! i = buf ! (i - 1)"
    by auto
  have "take (Suc lst) (r[first := x]) = take first buf @ x # drop first (take lst buf)"
  proof (rule nth_equalityI)
    show "length (take (Suc lst) (r[first := x])) =
        length (take first buf @ x # drop first (take lst buf))"
      using r(2) assms by simp
  next
    fix i assume "i < length (take (Suc lst) (r[first := x]))"
    then have i: "i \<le> lst" using r(2) assms by simp
    consider "i < first" | "i = first" | "first < i" by linarith
    then show "take (Suc lst) (r[first := x]) ! i =
        (take first buf @ x # drop first (take lst buf)) ! i"
    proof cases
      case 1
      then show ?thesis using i r(2,3) assms by (simp add: nth_append)
    next
      case 2
      then show ?thesis using i r(2) assms by (simp add: nth_append)
    next
      case 3
      then obtain k where k: "i = Suc (first + k)" by (metis less_iff_Suc_add)
      have "r ! i = buf ! (i - 1)" using r(4) 3 i by simp
      then show ?thesis using i 3 r(2) assms k by (simp add: nth_append min_def)
    qed
  qed
  then show ?thesis using r(1,2) by simp
qed

section \<open>Growing and appending\<close>

text \<open>With an argument outside the vector, the read of the argument is the value itself.\<close>

lemma PushBack_External:
  "PushBack d mv v (External x) =
     ebind
       (if m_size v \<ge> m_capacity v then
          (let c = max (size_t_mul (m_capacity v) 2) 1 in
           ebind (std_move mv (m_items v) 0 (m_size v) (ArrayPtr_sized d c) 0)
             (\<lambda>(old_data, new_data).
           (let (its, dead) = ArrayPtr_swap old_data new_data
            in Inr (v\<lparr>m_items := its, m_capacity := c\<rparr>))))
        else Inr v)
       (\<lambda>v1. ebind (slot_write (m_items v1) (m_size v1) x)
          (\<lambda>b. Inr (v1\<lparr>m_items := b, m_size := m_size v1 + 1\<rparr>)))"
  by (auto simp: PushBack_def read_ref_def ebind_def Let_def ArrayPtr_swap_def
      split: sum.splits prod.splits)

lemma PushBack_rvalue_External:
  "PushBack_rvalue d mv v (External x) =
     ebind
       (if m_size v \<ge> m_capacity v then Reserve d mv v (max (size_t_mul (m_capacity v) 2) 1)
        else Inr v)
       (\<lambda>v1. ebind (slot_write (m_items v1) (m_size v1) x)
          (\<lambda>b. Inr (v1\<lparr>m_items := b, m_size := m_size v1 + 1\<rparr>)))"
  by (auto simp: PushBack_rvalue_def move_ref_def ebind_def split: sum.splits prod.splits)

lemma replicate_num: "replicate (numeral k) x = x # replicate (pred_numeral k) x"
  by (simp add: numeral_eq_Suc)

lemma list_update_num: "(x # xs)[numeral k := y] = x # xs[pred_numeral k := y]"
  by (simp add: numeral_eq_Suc)

lemma size_t_mul_no_wrap: "a < 2 ^ 63 \<Longrightarrow> size_t_mul a 2 = a * 2"
  by (simp add: size_t_mul_def)

lemma Reserve_grow:
  assumes "m_size v \<le> length (m_items v)" "m_size v \<le> n" "m_capacity v < n"
  shows "Reserve d mv v n =
    Inr (v\<lparr>m_items := take (m_size v) (m_items v) @ replicate (n - m_size v) d, m_capacity := n\<rparr>)"
proof -
  from std_move_eq[of "m_size v" "m_items v" "ArrayPtr_sized d n" mv] assms
  obtain old where "std_move mv (m_items v) 0 (m_size v) (ArrayPtr_sized d n) 0 =
      Inr (old, take (m_size v) (m_items v) @ drop (m_size v) (ArrayPtr_sized d n))"
    by (auto simp: ArrayPtr_sized_def)
  then show ?thesis using assms
    by (simp add: Reserve_def ebind_def ArrayPtr_swap_def ArrayPtr_sized_def)
qed

lemma Reserve_keep: "n \<le> m_capacity v \<Longrightarrow> Reserve d mv v n = Inr v"
  by (simp add: Reserve_def)

lemma grow_step:
  assumes "well_formed v" "m_size v \<ge> m_capacity v" "m_size v < 2 ^ 63"
  shows "Reserve d mv v (max (size_t_mul (m_capacity v) 2) 1) =
     Inr (v\<lparr>m_items := m_items v @ replicate (max (m_capacity v * 2) 1 - m_capacity v) d,
            m_capacity := max (m_capacity v * 2) 1\<rparr>)"
proof -
  have eq: "m_size v = m_capacity v" "length (m_items v) = m_capacity v"
    using assms by (auto simp: well_formed_def)
  have m: "size_t_mul (m_capacity v) 2 = m_capacity v * 2"
    using assms(3) eq by (simp add: size_t_mul_no_wrap)
  have lt: "m_capacity v < max (m_capacity v * 2) 1" by (cases "m_capacity v") auto
  show ?thesis unfolding m
    using Reserve_grow[of v "max (m_capacity v * 2) 1" d mv] lt eq by simp
qed

lemma PushBack_rvalue_eq:
  assumes "well_formed v" "m_size v < 2 ^ 63"
  shows "PushBack_rvalue d mv v (External x) = PushBack d mv v (External x)"
proof (cases "m_size v \<ge> m_capacity v")
  case True
  have eq: "m_size v = m_capacity v" "length (m_items v) = m_capacity v"
    using assms True by (auto simp: well_formed_def)
  have lt: "m_capacity v < max (size_t_mul (m_capacity v) 2) 1"
    using assms(2) eq by (cases "m_capacity v") (auto simp: size_t_mul_no_wrap)
  show ?thesis using True lt
    by (simp add: PushBack_rvalue_External PushBack_External Reserve_def Let_def)
next
  case False
  then show ?thesis by (simp add: PushBack_rvalue_External PushBack_External)
qed

lemma take_update_fresh:
  "length xs = n \<Longrightarrow> 0 < k \<Longrightarrow> take (Suc n) ((xs @ replicate k d)[n := x]) = xs @ [x]"
  by (cases k) (auto simp: list_update_append)

lemma PushBack_rvalue_ok:
  assumes "well_formed v" "m_size v < 2 ^ 63"
  shows "\<exists>v'. PushBack_rvalue d mv v (External x) = Inr v' \<and> well_formed v' \<and>
      m_size v' = m_size v + 1 \<and> elems v' = elems v @ [x] \<and>
      m_capacity v' = (if m_size v = m_capacity v then max (m_capacity v * 2) 1 else m_capacity v)"
proof (cases "m_size v \<ge> m_capacity v")
  case True
  have eq: "m_size v = m_capacity v" "length (m_items v) = m_capacity v"
    using assms True by (auto simp: well_formed_def)
  have lt: "m_capacity v < max (m_capacity v * 2) 1" by (cases "m_capacity v") auto
  show ?thesis
    using True grow_step[OF assms(1) True assms(2), of d mv] eq lt
    by (simp add: PushBack_rvalue_External ebind_def slot_write_def well_formed_def elems_def
        take_update_fresh)
next
  case False
  then have lt: "m_size v < m_capacity v" by simp
  have len: "length (m_items v) = m_capacity v" using assms by (simp add: well_formed_def)
  show ?thesis using lt len
    by (simp add: PushBack_rvalue_External ebind_def slot_write_def well_formed_def elems_def
        take_Suc_conv_app_nth)
qed




section \<open>Resizing and erasing\<close>

lemma Resize_shrink: "new_size < m_size v \<Longrightarrow> Resize d mv v new_size = Inr (v\<lparr>m_size := new_size\<rparr>)"
  by (simp add: Resize_def)

lemma Resize_in_place:
  assumes "well_formed v" "m_size v \<le> new_size" "new_size \<le> m_capacity v"
  shows "Resize d mv v new_size =
    Inr (v\<lparr>m_items := take (m_size v) (m_items v) @ replicate (new_size - m_size v) d
                  @ drop new_size (m_items v),
           m_size := new_size\<rparr>)"
proof -
  have len: "new_size \<le> length (m_items v)" using assms by (simp add: well_formed_def)
  show ?thesis using assms(2,3) std_fill_eq[OF assms(2) len, of d]
    by (simp add: Resize_def ebind_def)
qed

lemma Resize_realloc:
  assumes "well_formed v" "m_capacity v < new_size"
  shows "Resize d mv v new_size =
    Inr \<lparr>m_items = elems v @ replicate (new_size - m_size v) d,
         m_size = new_size, m_capacity = new_size\<rparr>"
proof -
  have le: "m_size v \<le> length (m_items v)" "m_size v \<le> new_size"
    using assms by (simp_all add: well_formed_def)
  from std_move_eq[of "m_size v" "m_items v" "ArrayPtr_sized d new_size" mv] le
  obtain old where mv: "std_move mv (m_items v) 0 (m_size v) (ArrayPtr_sized d new_size) 0 =
      Inr (old, elems v @ replicate (new_size - m_size v) d)"
    by (auto simp: ArrayPtr_sized_def elems_def)
  have l2: "new_size \<le> length (elems v @ replicate (new_size - m_size v) d)"
    using le by (simp add: elems_def)
  have fill: "std_fill (elems v @ replicate (new_size - m_size v) d) (m_size v) new_size d =
      Inr (elems v @ replicate (new_size - m_size v) d)"
    using std_fill_eq[OF le(2) l2, of d] le by (simp add: elems_def)
  show ?thesis using assms(2) le(2) mv fill
    by (simp add: Resize_def ebind_def ArrayPtr_swap_def)
qed


lemma Erase_ok:
  assumes "well_formed v" "pos < m_size v"
  shows "\<exists>v'. Erase mv v pos = Inr (v', pos) \<and> m_size v' = m_size v - 1 \<and>
      m_capacity v' = m_capacity v \<and> length (m_items v') = length (m_items v) \<and>
      elems v' = take pos (elems v) @ drop (Suc pos) (elems v)"
proof -
  have le: "Suc pos \<le> m_size v" "m_size v \<le> length (m_items v)"
    using assms by (simp_all add: well_formed_def)
  from std_move_inplace_eq[OF le, of mv]
  obtain r where r: "std_move_inplace mv (m_items v) (Suc pos) (m_size v) pos = Inr r"
    "length r = length (m_items v)"
    "take (m_size v - 1) r = take pos (m_items v) @ drop (Suc pos) (take (m_size v) (m_items v))"
    by auto
  have "take pos (take (m_size v) (m_items v)) = take pos (m_items v)"
    using assms(2) by (simp add: min_def)
  then show ?thesis using r assms(2)
    by (simp add: Erase_def end_it_def begin_it_def ebind_def elems_def)
qed


section \<open>Unchecked access\<close>

lemma subscript_elems:
  "m_size v \<le> length (m_items v) \<Longrightarrow> i < m_size v \<Longrightarrow> subscript v i = Inr (elems v ! i)"
  by (simp add: subscript_def slot_read_def elems_def)


section \<open>Equality and ordering\<close>

lemma drop_take_Cons:
  "first < n \<Longrightarrow> n \<le> length a \<Longrightarrow>
   drop first (take n a) = a ! first # drop (Suc first) (take n a)"
  by (metis Cons_nth_drop_Suc length_take min.absorb2 nth_take)

lemma std_equal_eq:
  "first \<le> n \<Longrightarrow> n \<le> length a \<Longrightarrow> n \<le> length b \<Longrightarrow>
   std_equal a first n b first = Inr (drop first (take n a) = drop first (take n b))"
proof (induction "n - first" arbitrary: first)
  case 0
  then have "first = n" by simp
  then show ?case by (simp add: std_equal.simps)
next
  case (Suc k)
  then have lt: "first < n" by simp
  have k: "k = n - Suc first" using Suc.hyps(2) by simp
  have ih: "std_equal a (Suc first) n b (Suc first) =
      Inr (drop (Suc first) (take n a) = drop (Suc first) (take n b))"
    using Suc.hyps(1)[OF k] lt Suc.prems by simp
  have step: "std_equal a first n b first =
      (if a ! first = b ! first then std_equal a (Suc first) n b (Suc first) else Inr False)"
    using lt Suc.prems by (subst std_equal.simps) simp
  show ?case unfolding step ih
    using drop_take_Cons[OF lt Suc.prems(2)] drop_take_Cons[OF lt Suc.prems(3)] by simp
qed

lemma std_lexicographical_compare_eq:
  fixes a b :: "('a::linorder) list"
  shows "first \<le> n1 \<Longrightarrow> n1 \<le> length a \<Longrightarrow> first \<le> n2 \<Longrightarrow> n2 \<le> length b \<Longrightarrow>
   std_lexicographical_compare a first n1 b first n2 =
     Inr (drop first (take n1 a) < drop first (take n2 b))"
proof (induction "n1 - first" arbitrary: first)
  case 0
  then have e: "first = n1" by simp
  have "drop n1 (take n2 b) = [] \<longleftrightarrow> n1 = n2" using 0 e by auto
  then show ?case using e
    by (cases "drop n1 (take n2 b)") (simp_all add: std_lexicographical_compare.simps)
next
  case (Suc k)
  then have lt: "first < n1" by simp
  show ?case
  proof (cases "first = n2")
    case True
    then show ?thesis using lt by (simp add: std_lexicographical_compare.simps)
  next
    case False
    then have lt2: "first < n2" using Suc.prems by simp
    have k: "k = n1 - Suc first" using Suc.hyps(2) by simp
    have ih: "std_lexicographical_compare a (Suc first) n1 b (Suc first) n2 =
        Inr (drop (Suc first) (take n1 a) < drop (Suc first) (take n2 b))"
      using Suc.hyps(1)[OF k] lt lt2 Suc.prems by simp
    have step: "std_lexicographical_compare a first n1 b first n2 =
        (if a ! first < b ! first then Inr True
         else if b ! first < a ! first then Inr False
         else std_lexicographical_compare a (Suc first) n1 b (Suc first) n2)"
      using lt lt2 Suc.prems by (subst std_lexicographical_compare.simps) simp
    show ?thesis unfolding step ih
      using drop_take_Cons[OF lt Suc.prems(2)] drop_take_Cons[OF lt2 Suc.prems(4)] by auto
  qed
qed


section \<open>Constructors, insertion and the size invariant\<close>

subsection \<open>What the constructors build\<close>

lemma SimpleVector_sized_eq:
  "SimpleVector_sized d n = Inr \<lparr>m_items = replicate n d, m_size = n, m_capacity = n\<rparr>"
proof -
  have "std_fill (if 0 < n then ArrayPtr_sized d n else ArrayPtr_null) 0 n d = Inr (replicate n d)"
    using std_fill_eq[of 0 n "replicate n d" d]
    by (cases "0 < n") (simp_all add: ArrayPtr_sized_def ArrayPtr_null_def std_fill.simps)
  then show ?thesis by (simp add: SimpleVector_sized_def ebind_def)
qed

lemma SimpleVector_fill_eq:
  "SimpleVector_fill d n x = Inr \<lparr>m_items = replicate n x, m_size = n, m_capacity = n\<rparr>"
  using std_fill_eq[of 0 n "replicate n d" x]
  by (simp add: SimpleVector_fill_def ebind_def ArrayPtr_sized_def)

lemma SimpleVector_init_eq:
  "SimpleVector_init d init = Inr \<lparr>m_items = init, m_size = length init, m_capacity = length init\<rparr>"
proof -
  have "std_copy init 0 (length init)
      (if 0 < length init then ArrayPtr_sized d (length init) else ArrayPtr_null) 0 = Inr init"
    using std_copy_eq[of "length init" init "replicate (length init) d"]
    by (cases "0 < length init") (simp_all add: ArrayPtr_sized_def ArrayPtr_null_def std_copy.simps)
  then show ?thesis by (simp add: SimpleVector_init_def ebind_def)
qed

lemma SimpleVector_copy_eq:
  assumes "m_size other \<le> length (m_items other)"
  shows "SimpleVector_copy d other =
    Inr \<lparr>m_items = elems other, m_size = m_size other, m_capacity = m_capacity other\<rparr>"
proof -
  have "std_copy (m_items other) 0 (m_size other)
      (if 0 < m_size other then ArrayPtr_sized d (m_size other) else ArrayPtr_null) 0 =
      Inr (elems other)"
    using std_copy_eq[of "m_size other" "m_items other" "replicate (m_size other) d"] assms
    by (cases "0 < m_size other")
      (simp_all add: ArrayPtr_sized_def ArrayPtr_null_def std_copy.simps elems_def)
  then show ?thesis by (simp add: SimpleVector_copy_def ebind_def)
qed

subsection \<open>Size and capacity after each operation that returns\<close>

lemma SimpleVector_copy_fields:
  "SimpleVector_copy d other = Inr v \<Longrightarrow>
   m_size v = m_size other \<and> m_capacity v = m_capacity other"
  by (auto simp: SimpleVector_copy_def ebind_def split: sum.splits)

lemma Resize_fields:
  "Resize d mv v n = Inr v' \<Longrightarrow>
   m_size v' = n \<and> m_capacity v' = (if n \<le> m_capacity v \<or> n < m_size v then m_capacity v else n)"
  by (auto simp: Resize_def ebind_def ArrayPtr_swap_def split: sum.splits if_splits prod.splits)

lemma Reserve_fields:
  "Reserve d mv v n = Inr v' \<Longrightarrow>
   m_size v' = m_size v \<and> m_capacity v' = (if m_capacity v < n then n else m_capacity v)"
  by (auto simp: Reserve_def ebind_def ArrayPtr_swap_def split: sum.splits if_splits prod.splits)

lemma PushBack_fields:
  "PushBack d mv v (External x) = Inr v' \<Longrightarrow>
   m_size v' = m_size v + 1 \<and>
   m_capacity v' = (if m_capacity v \<le> m_size v then max (size_t_mul (m_capacity v) 2) 1
                    else m_capacity v)"
  by (auto simp: PushBack_External ebind_def ArrayPtr_swap_def Let_def
      split: sum.splits if_splits prod.splits)

lemma PushBack_rvalue_fields:
  "PushBack_rvalue d mv v (External x) = Inr v' \<Longrightarrow>
   m_size v' = m_size v + 1 \<and>
   m_capacity v' = (if m_capacity v \<le> m_size v \<and> m_capacity v < max (size_t_mul (m_capacity v) 2) 1
                    then max (size_t_mul (m_capacity v) 2) 1 else m_capacity v)"
  by (auto simp: PushBack_rvalue_External ebind_def dest!: Reserve_fields
      split: sum.splits if_splits prod.splits)

lemma Insert_fields:
  "Insert d mv v pos x = Inr (v', it) \<Longrightarrow>
   m_size v' = m_size v + 1 \<and>
   m_capacity v' = (if m_capacity v \<le> m_size v \<and> m_capacity v < max (size_t_mul (m_capacity v) 2) 1
                    then max (size_t_mul (m_capacity v) 2) 1 else m_capacity v)"
  by (auto simp: Insert_def ebind_def Let_def dest!: Reserve_fields
      split: sum.splits if_splits prod.splits)

lemma Erase_fields:
  "Erase mv v pos = Inr (v', it) \<Longrightarrow>
   pos < m_size v \<and> m_size v' = m_size v - 1 \<and> m_capacity v' = m_capacity v"
  by (auto simp: Erase_def ebind_def Let_def end_it_def split: sum.splits if_splits)

lemma doubling_grows: "c < 2 ^ 63 \<Longrightarrow> c < max (size_t_mul c 2) 1"
  by (cases c) (simp_all add: size_t_mul_no_wrap)

subsection \<open>Insert\<close>

lemma Insert_with_room:
  assumes "well_formed v" "pos \<le> m_size v" "m_size v < m_capacity v"
  shows "\<exists>v'. Insert d mv v pos x = Inr (v', pos) \<and> m_size v' = m_size v + 1 \<and>
      m_capacity v' = m_capacity v \<and> length (m_items v') = length (m_items v) \<and>
      elems v' = take pos (elems v) @ x # drop pos (elems v)"
proof -
  have len: "Suc (m_size v) \<le> length (m_items v)" using assms by (simp add: well_formed_def)
  from std_move_backward_eq[OF assms(2) len, of mv x]
  obtain r where r: "std_move_backward mv (m_items v) pos (m_size v) (Suc (m_size v)) = Inr r"
    "length r = length (m_items v)"
    "take (Suc (m_size v)) (r[pos := x]) =
       take pos (m_items v) @ x # drop pos (take (m_size v) (m_items v))"
    by auto
  have "take pos (take (m_size v) (m_items v)) = take pos (m_items v)"
    using assms(2) by (simp add: min_def)
  then show ?thesis using r assms(2,3) len
    by (simp add: Insert_def end_it_def begin_it_def ebind_def slot_write_def elems_def)
qed

lemma Insert_when_full:
  assumes "well_formed v" "pos \<le> m_size v" "m_capacity v \<le> m_size v" "m_size v < 2 ^ 63"
  shows "\<exists>v'. Insert d mv v pos x = Inr (v', pos) \<and> m_size v' = m_size v + 1 \<and>
      m_capacity v' = max (m_capacity v * 2) 1 \<and> length (m_items v') = m_capacity v' \<and>
      elems v' = (elems v @ [d])[pos := x]"
proof -
  define c where "c = max (m_capacity v * 2) 1"
  have eq: "m_size v = m_capacity v" "length (m_items v) = m_capacity v"
    using assms by (auto simp: well_formed_def)
  have lt: "m_capacity v < c" unfolding c_def by (cases "m_capacity v") auto
  then obtain k where k: "c - m_capacity v = Suc k" by (metis Suc_diff_Suc)
  have grown: "Reserve d mv v (max (size_t_mul (m_capacity v) 2) 1) =
      Inr (v\<lparr>m_items := m_items v @ replicate (Suc k) d, m_capacity := c\<rparr>)"
    using grow_step[OF assms(1,3,4), of d mv] k unfolding c_def by simp
  have len: "length (m_items v @ replicate (Suc k) d) = c" using eq k lt by simp
  have t: "take (Suc (m_capacity v)) ((m_items v @ replicate (Suc k) d)[pos := x]) =
      (m_items v @ [d])[pos := x]"
    using eq by (simp add: take_update_swap)
  have w: "slot_write (m_items v @ replicate (Suc k) d) pos x =
      Inr ((m_items v @ replicate (Suc k) d)[pos := x])"
    using assms(2) eq by (simp add: slot_write_def)
  have "Insert d mv v pos x =
      Inr (v\<lparr>m_items := (m_items v @ replicate (Suc k) d)[pos := x], m_capacity := c,
             m_size := m_size v + 1\<rparr>, pos)"
    using assms(2,3) w unfolding Insert_def grown
    by (simp add: end_it_def begin_it_def ebind_def)
  then show ?thesis using t len eq unfolding c_def[symmetric] by (simp add: elems_def)
qed

subsection \<open>The invariant over all operations\<close>

lemma store_inv_upd: "store_inv s \<Longrightarrow> m_size v \<le> m_capacity v \<Longrightarrow> store_inv (s(a := v))"
  by (simp add: store_inv_def)

lemma exec_preserves:
  assumes "store_inv s" "pre c s" "exec d mv c s = Inr s'"
  shows "store_inv s'"
proof -
  have inv: "\<And>a. m_size (s a) \<le> m_capacity (s a)" using assms(1) by (simp add: store_inv_def)
  show ?thesis
  proof (cases c)
    case (New_default a)
    then show ?thesis using assms
      by (auto simp: SimpleVector_default_def intro!: store_inv_upd)
  next
    case (New_sized a n)
    then show ?thesis using assms
      by (auto simp: SimpleVector_sized_eq ebind_def intro!: store_inv_upd)
  next
    case (New_fill a n x)
    then show ?thesis using assms
      by (auto simp: SimpleVector_fill_eq ebind_def intro!: store_inv_upd)
  next
    case (New_init a init)
    then show ?thesis using assms
      by (auto simp: SimpleVector_init_eq ebind_def intro!: store_inv_upd)
  next
    case (New_copy a b)
    then show ?thesis using assms inv[of b]
      by (auto simp: ebind_def split: sum.splits if_splits
          dest!: SimpleVector_copy_fields intro!: store_inv_upd)
  next
    case (New_move a b)
    then show ?thesis using assms inv[of b]
      by (auto simp: SimpleVector_move_def ArrayPtr_move_def std_exchange_def
          split: if_splits intro!: store_inv_upd)
  next
    case (New_reserve a n)
    then show ?thesis using assms
      by (auto simp: SimpleVector_reserve_def intro!: store_inv_upd)
  next
    case (Assign_copy a b)
    then show ?thesis using assms inv[of b]
      by (auto simp: assign_copy_def ebind_def swap_v_def ArrayPtr_swap_def
          split: sum.splits if_splits dest!: SimpleVector_copy_fields intro!: store_inv_upd)
  next
    case (Assign_move a b)
    then show ?thesis using assms inv[of b]
      by (auto simp: assign_move_def ArrayPtr_swap_def std_exchange_def
          split: if_splits intro!: store_inv_upd)
  next
    case (Call_Clear a)
    then show ?thesis using assms by (auto simp: Clear_def intro!: store_inv_upd)
  next
    case (Call_Resize a n)
    then show ?thesis using assms inv[of a]
      by (auto simp: ebind_def split: sum.splits if_splits
          dest!: Resize_fields intro!: store_inv_upd)
  next
    case (Call_Reserve a n)
    then show ?thesis using assms inv[of a]
      by (auto simp: ebind_def split: sum.splits if_splits
          dest!: Reserve_fields intro!: store_inv_upd)
  next
    case (Call_PopBack a)
    then show ?thesis using assms inv[of a]
      by (auto simp: ebind_def PopBack_def split: sum.splits if_splits intro!: store_inv_upd)
  next
    case (Call_PushBack a x)
    then obtain v' where v': "PushBack d mv (s a) (External x) = Inr v'" "s' = s(a := v')"
      using assms(3) by (auto simp: ebind_def split: sum.splits)
    have small: "m_size (s a) < 2 ^ 63" using assms(2) Call_PushBack by simp
    have g: "m_capacity (s a) \<le> m_size (s a) \<Longrightarrow>
        m_size (s a) < max (size_t_mul (m_capacity (s a)) 2) 1"
      using small inv[of a] doubling_grows[of "m_capacity (s a)"] by simp
    have "m_size v' \<le> m_capacity v'"
      using PushBack_fields[OF v'(1)] inv[of a] g by (cases "m_capacity (s a) \<le> m_size (s a)") simp_all
    then show ?thesis using v'(2) assms(1) by (simp add: store_inv_upd)
  next
    case (Call_PushBack_rvalue a x)
    then obtain v' where v': "PushBack_rvalue d mv (s a) (External x) = Inr v'" "s' = s(a := v')"
      using assms(3) by (auto simp: ebind_def split: sum.splits)
    have small: "m_size (s a) < 2 ^ 63" using assms(2) Call_PushBack_rvalue by simp
    have g: "m_capacity (s a) \<le> m_size (s a) \<Longrightarrow>
        m_size (s a) < max (size_t_mul (m_capacity (s a)) 2) 1"
      using small inv[of a] doubling_grows[of "m_capacity (s a)"] by simp
    have "m_size v' \<le> m_capacity v'"
      using PushBack_rvalue_fields[OF v'(1)] inv[of a] g
      by (cases "m_capacity (s a) \<le> m_size (s a)") simp_all
    then show ?thesis using v'(2) assms(1) by (simp add: store_inv_upd)
  next
    case (Call_Insert a pos x)
    then obtain v' it where v': "Insert d mv (s a) pos x = Inr (v', it)" "s' = s(a := v')"
      using assms(3) by (auto simp: ebind_def split: sum.splits)
    have small: "m_size (s a) < 2 ^ 63" using assms(2) Call_Insert by simp
    have g: "m_capacity (s a) \<le> m_size (s a) \<Longrightarrow>
        m_size (s a) < max (size_t_mul (m_capacity (s a)) 2) 1"
      using small inv[of a] doubling_grows[of "m_capacity (s a)"] by simp
    have "m_size v' \<le> m_capacity v'"
      using Insert_fields[OF v'(1)] inv[of a] g
      by (cases "m_capacity (s a) \<le> m_size (s a)") simp_all
    then show ?thesis using v'(2) assms(1) by (simp add: store_inv_upd)
  next
    case (Call_Erase a pos)
    then show ?thesis using assms inv[of a]
      by (auto simp: ebind_def split: sum.splits if_splits
          dest!: Erase_fields intro!: store_inv_upd)
  next
    case (Call_swap a b)
    then show ?thesis using assms inv[of a] inv[of b]
      by (auto simp: swap_v_def ArrayPtr_swap_def intro!: store_inv_upd)
  qed
qed


section \<open>Valid vectors\<close>

lemma valid_cases: "valid v \<Longrightarrow> well_formed v \<or> (m_size v = 0 \<and> m_capacity v = 0)"
  by (auto simp: valid_def well_formed_def)

lemma well_formed_valid: "well_formed v \<Longrightarrow> valid v"
  by (simp add: valid_def well_formed_def)

lemma valid_live: "valid v \<Longrightarrow> m_size v \<le> length (m_items v)"
  by (auto simp: valid_def)

subsection \<open>Operations on a vector with size 0 and capacity 0\<close>

lemma std_move_nothing: "std_move mv src 0 0 dst 0 = Inr (src, dst)"
  by (simp add: std_move.simps)

lemma PushBack_emptied:
  assumes "m_size v = 0" "m_capacity v = 0"
  shows "PushBack d mv v (External x) = Inr (v\<lparr>m_items := [x], m_capacity := 1, m_size := 1\<rparr>)"
    and "PushBack_rvalue d mv v (External x) = Inr (v\<lparr>m_items := [x], m_capacity := 1, m_size := 1\<rparr>)"
  using assms
  by (simp_all add: PushBack_External PushBack_rvalue_External Reserve_def ebind_def size_t_mul_def
      std_move_nothing ArrayPtr_swap_def ArrayPtr_sized_def slot_write_def)

lemma Insert_emptied:
  assumes "m_size v = 0" "m_capacity v = 0"
  shows "Insert d mv v 0 x = Inr (v\<lparr>m_items := [x], m_capacity := 1, m_size := 1\<rparr>, 0)"
  using assms
  by (simp add: Insert_def Reserve_def ebind_def size_t_mul_def end_it_def begin_it_def
      std_move_nothing ArrayPtr_swap_def ArrayPtr_sized_def slot_write_def)

lemma Reserve_emptied:
  assumes "m_size v = 0" "m_capacity v = 0"
  shows "Reserve d mv v n =
    Inr (if 0 < n then v\<lparr>m_items := replicate n d, m_capacity := n\<rparr> else v)"
  using assms
  by (simp add: Reserve_def ebind_def std_move_nothing ArrayPtr_swap_def ArrayPtr_sized_def)

lemma Resize_emptied:
  assumes "m_size v = 0" "m_capacity v = 0"
  shows "Resize d mv v n =
    Inr (if 0 < n then v\<lparr>m_items := replicate n d, m_size := n, m_capacity := n\<rparr> else v)"
proof (cases "0 < n")
  case True
  have "std_fill (replicate n d) 0 n d = Inr (replicate n d)"
    using std_fill_eq[of 0 n "replicate n d" d] by simp
  then show ?thesis using assms True
    by (simp add: Resize_def ebind_def std_move_nothing ArrayPtr_swap_def ArrayPtr_sized_def)
next
  case False
  then show ?thesis using assms by (simp add: Resize_def ebind_def std_fill.simps)
qed

subsection \<open>Each operation on a valid vector returns a valid vector\<close>

lemma Resize_valid:
  assumes "valid v"
  shows "\<exists>v'. Resize d mv v n = Inr v' \<and> valid v' \<and> (well_formed v \<longrightarrow> well_formed v')"
proof -
  have wf: "\<exists>v'. Resize d mv v n = Inr v' \<and> well_formed v'" if w: "well_formed v"
  proof -
    have len: "length (m_items v) = m_capacity v" "m_size v \<le> m_capacity v"
      using w by (simp_all add: well_formed_def)
    consider "n < m_size v" | "m_size v \<le> n" "n \<le> m_capacity v" | "m_capacity v < n"
      by linarith
    then show ?thesis
    proof cases
      case 1
      then show ?thesis using len by (simp add: Resize_shrink well_formed_def)
    next
      case 2
      then show ?thesis using Resize_in_place[OF w 2, of d mv] len
        by (simp add: well_formed_def)
    next
      case 3
      then show ?thesis using Resize_realloc[OF w 3, of d mv] len
        by (simp add: well_formed_def elems_def)
    qed
  qed
  from valid_cases[OF assms] show ?thesis
  proof
    assume "well_formed v"
    then show ?thesis using wf well_formed_valid by blast
  next
    assume e: "m_size v = 0 \<and> m_capacity v = 0"
    then show ?thesis using Resize_emptied[of v d mv n] assms
      by (auto simp: valid_def well_formed_def)
  qed
qed

lemma Reserve_valid:
  assumes "valid v"
  shows "\<exists>v'. Reserve d mv v n = Inr v' \<and> valid v' \<and> (well_formed v \<longrightarrow> well_formed v')"
proof -
  have wf: "\<exists>v'. Reserve d mv v n = Inr v' \<and> well_formed v'" if w: "well_formed v"
  proof (cases "m_capacity v < n")
    case True
    have len: "m_size v \<le> length (m_items v)" "m_size v \<le> n"
      using w True by (simp_all add: well_formed_def)
    show ?thesis using Reserve_grow[OF len True, of d mv] len
      by (simp add: well_formed_def)
  next
    case False
    then show ?thesis using w by (simp add: Reserve_keep)
  qed
  from valid_cases[OF assms] show ?thesis
  proof
    assume "well_formed v"
    then show ?thesis using wf well_formed_valid by blast
  next
    assume e: "m_size v = 0 \<and> m_capacity v = 0"
    then show ?thesis using Reserve_emptied[of v d mv n] assms
      by (auto simp: valid_def well_formed_def)
  qed
qed

lemma PushBack_valid:
  assumes "valid v" "m_size v < 2 ^ 63"
  shows "\<exists>v'. PushBack d mv v (External x) = Inr v' \<and> PushBack_rvalue d mv v (External x) = Inr v' \<and>
      well_formed v' \<and> m_size v' = m_size v + 1 \<and> elems v' = elems v @ [x] \<and>
      m_capacity v' = (if m_size v = m_capacity v then max (m_capacity v * 2) 1 else m_capacity v)"
  using valid_cases[OF assms(1)]
proof
  assume w: "well_formed v"
  show ?thesis
    using PushBack_rvalue_ok[OF w assms(2), of d mv x] PushBack_rvalue_eq[OF w assms(2), of d mv x]
    by auto
next
  assume e: "m_size v = 0 \<and> m_capacity v = 0"
  then show ?thesis using PushBack_emptied[of v d mv x]
    by (simp add: well_formed_def elems_def)
qed

lemma Insert_valid:
  assumes "valid v" "pos \<le> m_size v" "m_size v < 2 ^ 63"
  shows "\<exists>v'. Insert d mv v pos x = Inr (v', pos) \<and> well_formed v' \<and> m_size v' = m_size v + 1"
  using valid_cases[OF assms(1)]
proof
  assume w: "well_formed v"
  show ?thesis
  proof (cases "m_size v < m_capacity v")
    case True
    then show ?thesis using Insert_with_room[OF w assms(2) True, of d mv x] w
      by (auto simp: well_formed_def)
  next
    case False
    then have f: "m_capacity v \<le> m_size v" by simp
    have "m_size v < max (m_capacity v * 2) 1"
      using w f by (cases "m_capacity v") (auto simp: well_formed_def)
    then show ?thesis using Insert_when_full[OF w assms(2) f assms(3), of d mv x]
      by (auto simp: well_formed_def)
  qed
next
  assume e: "m_size v = 0 \<and> m_capacity v = 0"
  then show ?thesis using Insert_emptied[of v d mv x] assms(2)
    by (simp add: well_formed_def)
qed

lemma Erase_valid:
  assumes "valid v" "pos < m_size v"
  shows "\<exists>v'. Erase mv v pos = Inr (v', pos) \<and> well_formed v' \<and> well_formed v"
proof -
  have w: "well_formed v" using valid_cases[OF assms(1)] assms(2) by auto
  show ?thesis using Erase_ok[OF w assms(2), of mv] w by (auto simp: well_formed_def)
qed

subsection \<open>The capacity field and the block, over all operations\<close>

lemma store_valid_upd: "store_valid s \<Longrightarrow> valid v \<Longrightarrow> store_valid (s(a := v))"
  by (simp add: store_valid_def)

lemma well_formed_fresh:
  "well_formed \<lparr>m_items = replicate n x, m_size = n, m_capacity = n\<rparr>"
  "well_formed \<lparr>m_items = xs, m_size = length xs, m_capacity = length xs\<rparr>"
  "well_formed (SimpleVector_default :: 'a SimpleVector)"
  "well_formed (SimpleVector_reserve d (Reserve_proxy n))"
  by (simp_all add: well_formed_def SimpleVector_default_def ArrayPtr_null_def
      SimpleVector_reserve_def Reserve_proxy_def)

lemma SimpleVector_eta:
  "\<lparr>m_items = m_items v, m_size = m_size v, m_capacity = m_capacity v\<rparr> = (v :: 'a SimpleVector)"
  by (cases v) simp

lemma exec_valid:
  assumes "store_valid s" "pre c s" "\<not> copies c"
  shows "\<exists>s'. exec d mv c s = Inr s' \<and> store_valid s' \<and>
     (\<forall>a. (case origin c a of None \<Rightarrow> True | Some b \<Rightarrow> well_formed (s b)) \<and>
          move_source c \<noteq> Some a \<longrightarrow> well_formed (s' a))"
proof -
  have v: "\<And>a. valid (s a)" using assms(1) by (simp add: store_valid_def)
  have fin: "\<exists>s'. exec d mv c s = Inr s' \<and> store_valid s' \<and>
     (\<forall>a. (case origin c a of None \<Rightarrow> True | Some b \<Rightarrow> well_formed (s b)) \<and>
          move_source c \<noteq> Some a \<longrightarrow> well_formed (s' a))"
    if "exec d mv c s = Inr (s(a := v'))" "valid v'"
      "(case origin c a of None \<Rightarrow> True | Some b \<Rightarrow> well_formed (s b)) \<longrightarrow> well_formed v'"
      "move_source c = None" "\<And>b. b \<noteq> a \<Longrightarrow> origin c b = Some b"
    for a v'
    using that assms(1) by (auto simp: store_valid_upd)
  show ?thesis
  proof (cases c)
    case (New_default a)
    then show ?thesis
      by (intro fin[of a SimpleVector_default]) (simp_all add: well_formed_fresh well_formed_valid)
  next
    case (New_sized a n)
    then show ?thesis
      by (intro fin[of a "\<lparr>m_items = replicate n d, m_size = n, m_capacity = n\<rparr>"])
        (simp_all add: SimpleVector_sized_eq ebind_def well_formed_fresh well_formed_valid)
  next
    case (New_fill a n x)
    then show ?thesis
      by (intro fin[of a "\<lparr>m_items = replicate n x, m_size = n, m_capacity = n\<rparr>"])
        (simp_all add: SimpleVector_fill_eq ebind_def well_formed_fresh well_formed_valid)
  next
    case (New_init a init)
    then show ?thesis
      by (intro fin[of a "\<lparr>m_items = init, m_size = length init, m_capacity = length init\<rparr>"])
        (simp_all add: SimpleVector_init_eq ebind_def well_formed_fresh well_formed_valid)
  next
    case (New_copy a b)
    then show ?thesis using assms(3) by simp
  next
    case (New_move a b)
    then have ne: "a \<noteq> b" using assms(2) by simp
    have e: "exec d mv c s =
        Inr (s(a := s b, b := \<lparr>m_items = [], m_size = 0, m_capacity = 0\<rparr>))"
      using New_move ne
      by (simp add: SimpleVector_move_def ArrayPtr_move_def std_exchange_def ArrayPtr_null_def
          SimpleVector_eta)
    show ?thesis unfolding e using v New_move
      by (auto simp: store_valid_def valid_def well_formed_def)
  next
    case (New_reserve a n)
    then show ?thesis
      by (intro fin[of a "SimpleVector_reserve d (Reserve_proxy n)"])
        (simp_all add: well_formed_fresh well_formed_valid)
  next
    case (Assign_copy a b)
    then show ?thesis using assms(3) by simp
  next
    case (Assign_move a b)
    show ?thesis
    proof (cases "a = b")
      case True
      then show ?thesis using Assign_move assms(1) by (simp add: assign_move_def)
    next
      case False
      have e: "exec d mv c s =
          Inr (s(a := s b, b := \<lparr>m_items = m_items (s a), m_size = 0, m_capacity = 0\<rparr>))"
        using Assign_move False
        by (simp add: assign_move_def ArrayPtr_swap_def std_exchange_def SimpleVector_eta)
      show ?thesis unfolding e using v Assign_move False
        by (auto simp: store_valid_def valid_def)
    qed
  next
    case (Call_Clear a)
    then show ?thesis using v[of a]
      by (intro fin[of a "Clear (s a)"]) (auto simp: Clear_def valid_def well_formed_def)
  next
    case (Call_Resize a n)
    from Resize_valid[OF v[of a], of d mv n]
    obtain v' where "Resize d mv (s a) n = Inr v'" "valid v'"
      "well_formed (s a) \<longrightarrow> well_formed v'" by auto
    then show ?thesis using Call_Resize by (intro fin[of a v']) (simp_all add: ebind_def)
  next
    case (Call_Reserve a n)
    from Reserve_valid[OF v[of a], of d mv n]
    obtain v' where "Reserve d mv (s a) n = Inr v'" "valid v'"
      "well_formed (s a) \<longrightarrow> well_formed v'" by auto
    then show ?thesis using Call_Reserve by (intro fin[of a v']) (simp_all add: ebind_def)
  next
    case (Call_PopBack a)
    then have p: "0 < m_size (s a)" using assms(2) by simp
    show ?thesis using Call_PopBack p v[of a]
      by (intro fin[of a "(s a)\<lparr>m_size := m_size (s a) - 1\<rparr>"])
        (auto simp: PopBack_def ebind_def valid_def well_formed_def)
  next
    case (Call_PushBack a x)
    then have p: "m_size (s a) < 2 ^ 63" using assms(2) by simp
    from PushBack_valid[OF v[of a] p, of d mv x]
    obtain v' where "PushBack d mv (s a) (External x) = Inr v'" "well_formed v'" by auto
    then show ?thesis using Call_PushBack
      by (intro fin[of a v']) (simp_all add: ebind_def well_formed_valid)
  next
    case (Call_PushBack_rvalue a x)
    then have p: "m_size (s a) < 2 ^ 63" using assms(2) by simp
    from PushBack_valid[OF v[of a] p, of d mv x]
    obtain v' where "PushBack_rvalue d mv (s a) (External x) = Inr v'" "well_formed v'" by auto
    then show ?thesis using Call_PushBack_rvalue
      by (intro fin[of a v']) (simp_all add: ebind_def well_formed_valid)
  next
    case (Call_Insert a pos x)
    then have p: "pos \<le> m_size (s a)" "m_size (s a) < 2 ^ 63" using assms(2) by simp_all
    from Insert_valid[OF v[of a] p, of d mv x]
    obtain v' where "Insert d mv (s a) pos x = Inr (v', pos)" "well_formed v'" by auto
    then show ?thesis using Call_Insert
      by (intro fin[of a v']) (simp_all add: ebind_def well_formed_valid)
  next
    case (Call_Erase a pos)
    then have p: "pos < m_size (s a)" using assms(2) by simp
    from Erase_valid[OF v[of a] p, of mv]
    obtain v' where "Erase mv (s a) pos = Inr (v', pos)" "well_formed v'" by auto
    then show ?thesis using Call_Erase
      by (intro fin[of a v']) (simp_all add: ebind_def well_formed_valid)
  next
    case (Call_swap a b)
    have e: "exec d mv c s = Inr (s(a := s b, b := s a))"
      using Call_swap by (simp add: swap_v_def ArrayPtr_swap_def SimpleVector_eta)
    show ?thesis unfolding e using v Call_swap by (auto simp: store_valid_def)
  qed
qed

section \<open>Every operation returns on valid objects\<close>

lemma exec_returns:
  assumes "store_valid s" "pre c s"
  shows "\<exists>s'. exec d mv c s = Inr s'"
proof (cases "copies c")
  case False
  then show ?thesis using exec_valid[OF assms False, of d mv] by blast
next
  case True
  have live: "\<And>a. m_size (s a) \<le> length (m_items (s a))"
    using assms(1) by (simp add: store_valid_def valid_live)
  show ?thesis
  proof (cases c)
    case (New_copy a b)
    then show ?thesis using assms(2) SimpleVector_copy_eq[OF live[of b], of d]
      by (simp add: ebind_def)
  next
    case (Assign_copy a b)
    then show ?thesis using SimpleVector_copy_eq[OF live[of b], of d]
      by (simp add: assign_copy_def ebind_def split_def Let_def)
  qed (use True in simp_all)
qed


section \<open>Arguments that refer to the vector itself\<close>







section \<open>The claims\<close>

text \<open>
  Claim C1. \<^verbatim>\<open>Insert\<close> at a valid index, also into a full vector, is claimed to put the value
  at that index, keep the elements before it, shift the elements from it one slot to the
  right and add one to the size. The code shifts only when it did not grow (lemma
  \<open>Insert_with_room\<close>); after growing it writes the value over the element at the index
  (lemma \<open>Insert_when_full\<close>). The theorem runs the code on the full vector \<open>{1, 2, 3}\<close>:
  \<^verbatim>\<open>Insert(begin(), 0)\<close> leaves \<open>{0, 2, 3, 0}\<close>, where the claim says \<open>{0, 1, 2, 3}\<close>.
\<close>
theorem Insert_full_vector_overwrites:
  "SimpleVector_init 0 [1, 2, 3 :: int] =
     Inr \<lparr>m_items = [1, 2, 3], m_size = 3, m_capacity = 3\<rparr> \<and>
   Insert 0 id \<lparr>m_items = [1, 2, 3 :: int], m_size = 3, m_capacity = 3\<rparr> 0 0 =
     Inr (\<lparr>m_items = [0, 2, 3, 0, 0, 0], m_size = 4, m_capacity = 6\<rparr>, 0) \<and>
   elems \<lparr>m_items = [0, 2, 3, 0, 0, 0 :: int], m_size = 4, m_capacity = 6\<rparr> = [0, 2, 3, 0]"
proof -
  have n4: "Suc (Suc (Suc (Suc 0))) = 4" by simp
  have a: "SimpleVector_init 0 [1, 2, 3 :: int] =
      Inr \<lparr>m_items = [1, 2, 3], m_size = 3, m_capacity = 3\<rparr>"
    by (simp add: SimpleVector_init_eq)
  have b: "Insert 0 id \<lparr>m_items = [1, 2, 3 :: int], m_size = 3, m_capacity = 3\<rparr> 0 0 =
      Inr (\<lparr>m_items = [0, 2, 3, 0, 0, 0], m_size = 4, m_capacity = 6\<rparr>, 0)"
    by (simp add: Insert_def Reserve_def ebind_def size_t_mul_def ArrayPtr_sized_def
        ArrayPtr_swap_def slot_write_def end_it_def begin_it_def std_move.simps
        replicate_num list_update_num n4)
  have c: "elems \<lparr>m_items = [0, 2, 3, 0, 0, 0 :: int], m_size = 4, m_capacity = 6\<rparr> =
      [0, 2, 3, 0]"
    by (simp add: elems_def)
  show ?thesis using a b c by blast
qed

text \<open>
  Claim C2. The copy of a vector is claimed to have the source's size, a capacity equal to
  the source's size, the source's live elements, and a block of its own. The code
  allocates \<^verbatim>\<open>other.size_\<close> slots and copies the live elements (lemma
  \<open>SimpleVector_copy_eq\<close>), but stores \<^verbatim>\<open>other.capacity_\<close> in the capacity field. The
  theorem runs it on \<open>{1, 2, 3, 4}\<close> after two calls of \<^verbatim>\<open>PopBack\<close>: the copy reports
  capacity 4 over a block of 2 slots, and the next \<^verbatim>\<open>PushBack\<close> writes outside that block.
\<close>
theorem copy_constructor_keeps_capacity_field:
  "SimpleVector_init 0 [1, 2, 3, 4 :: int] =
     Inr \<lparr>m_items = [1, 2, 3, 4], m_size = 4, m_capacity = 4\<rparr> \<and>
   PopBack \<lparr>m_items = [1, 2, 3, 4 :: int], m_size = 4, m_capacity = 4\<rparr> =
     Inr \<lparr>m_items = [1, 2, 3, 4], m_size = 3, m_capacity = 4\<rparr> \<and>
   PopBack \<lparr>m_items = [1, 2, 3, 4 :: int], m_size = 3, m_capacity = 4\<rparr> =
     Inr \<lparr>m_items = [1, 2, 3, 4], m_size = 2, m_capacity = 4\<rparr> \<and>
   SimpleVector_copy 0 \<lparr>m_items = [1, 2, 3, 4 :: int], m_size = 2, m_capacity = 4\<rparr> =
     Inr \<lparr>m_items = [1, 2], m_size = 2, m_capacity = 4\<rparr> \<and>
   GetSize \<lparr>m_items = [1, 2 :: int], m_size = 2, m_capacity = 4\<rparr> = 2 \<and>
   GetCapacity \<lparr>m_items = [1, 2 :: int], m_size = 2, m_capacity = 4\<rparr> = 4 \<and>
   PushBack 0 id \<lparr>m_items = [1, 2 :: int], m_size = 2, m_capacity = 4\<rparr> (External 3) =
     Inl BufferOverrun"
proof -
  have a: "SimpleVector_init 0 [1, 2, 3, 4 :: int] =
      Inr \<lparr>m_items = [1, 2, 3, 4], m_size = 4, m_capacity = 4\<rparr>"
    by (simp add: SimpleVector_init_eq)
  have b: "SimpleVector_copy 0 \<lparr>m_items = [1, 2, 3, 4 :: int], m_size = 2, m_capacity = 4\<rparr> =
      Inr \<lparr>m_items = [1, 2], m_size = 2, m_capacity = 4\<rparr>"
    by (simp add: SimpleVector_copy_eq elems_def)
  have c: "PushBack 0 id \<lparr>m_items = [1, 2 :: int], m_size = 2, m_capacity = 4\<rparr> (External 3) =
      Inl BufferOverrun"
    by (simp add: PushBack_External ebind_def slot_write_def)
  show ?thesis using a b c by (simp add: GetSize_def GetCapacity_def PopBack_def)
qed




text \<open>
  Claim C4. On a valid vector, \<^verbatim>\<open>At\<close> (mutable and const) fails exactly when
  \<open>index \<ge> size\<close>, and the failure is IndexOutOfRange; for \<open>index < size\<close> it returns the
  element at that index, the same value as \<^verbatim>\<open>operator[]\<close>. \<^verbatim>\<open>At\<close> has no effect on the
  vector: it assigns to no member, and its model returns a value and no vector.
\<close>
theorem At_checked_access:
  assumes "valid v"
  shows "(isl (At v index) \<longleftrightarrow> index \<ge> GetSize v) \<and>
         (At v index = Inl IndexOutOfRange \<longleftrightarrow> index \<ge> GetSize v) \<and>
         (isl (At_const v index) \<longleftrightarrow> index \<ge> GetSize v) \<and>
         (At_const v index = Inl IndexOutOfRange \<longleftrightarrow> index \<ge> GetSize v) \<and>
         (index < GetSize v \<longrightarrow>
            At v index = Inr (elems v ! index) \<and> At v index = subscript v index \<and>
            At_const v index = Inr (elems v ! index) \<and>
            At_const v index = subscript_const v index)"
proof -
  have len: "m_size v \<le> length (m_items v)" using assms by (rule valid_live)
  have a: "index < m_size v \<Longrightarrow> slot_read (m_items v) index = Inr (elems v ! index)"
    using len by (simp add: slot_read_def elems_def)
  show ?thesis using a
    by (auto simp: At_def At_const_def subscript_def subscript_const_def GetSize_def)
qed

theorem At_checked_access_witness:
  "valid \<lparr>m_items = [7, 8, 9, 0 :: int], m_size = 3, m_capacity = 4\<rparr> \<and>
   At \<lparr>m_items = [7, 8, 9, 0 :: int], m_size = 3, m_capacity = 4\<rparr> 1 = Inr 8 \<and>
   subscript \<lparr>m_items = [7, 8, 9, 0 :: int], m_size = 3, m_capacity = 4\<rparr> 1 = Inr 8 \<and>
   At \<lparr>m_items = [7, 8, 9, 0 :: int], m_size = 3, m_capacity = 4\<rparr> 3 = Inl IndexOutOfRange \<and>
   At_const \<lparr>m_items = [7, 8, 9, 0 :: int], m_size = 3, m_capacity = 4\<rparr> 3 = Inl IndexOutOfRange"
proof -
  let ?v = "\<lparr>m_items = [7, 8, 9, 0 :: int], m_size = 3, m_capacity = 4\<rparr>"
  have h: "valid ?v" by (simp add: valid_def)
  have e: "elems ?v = [7, 8, 9]" by (simp add: elems_def)
  have a: "At ?v 1 = Inr 8 \<and> subscript ?v 1 = Inr 8"
    using At_checked_access[OF h, of 1] e by (auto simp: GetSize_def)
  have b: "At ?v 3 = Inl IndexOutOfRange \<and> At_const ?v 3 = Inl IndexOutOfRange"
    using At_checked_access[OF h, of 3] by (auto simp: GetSize_def)
  show ?thesis using h a b by blast
qed




text \<open>
  Claim C6. On a valid vector, \<^verbatim>\<open>Resize(new_size)\<close> has three cases. Below the size, only the
  size changes. From the size up to the capacity, the slots \<open>[size, new_size)\<close> take the
  default value, the size becomes \<open>new_size\<close>, and the capacity and the block's slot count
  stay. Above the capacity, the block has exactly \<open>new_size\<close> slots, the first \<open>size\<close>
  elements are kept, the slots \<open>[size, new_size)\<close> hold the default value, and size and
  capacity are both \<open>new_size\<close>.
\<close>
theorem Resize_three_cases:
  assumes "valid v"
  shows "(new_size < GetSize v \<longrightarrow> Resize d mv v new_size = Inr (v\<lparr>m_size := new_size\<rparr>)) \<and>
         (GetSize v \<le> new_size \<and> new_size \<le> GetCapacity v \<longrightarrow>
            (\<exists>v'. Resize d mv v new_size = Inr v' \<and> GetSize v' = new_size \<and>
                 GetCapacity v' = GetCapacity v \<and> length (m_items v') = length (m_items v) \<and>
                 elems v' = elems v @ replicate (new_size - GetSize v) d)) \<and>
         (GetCapacity v < new_size \<longrightarrow>
            (\<exists>v'. Resize d mv v new_size = Inr v' \<and> GetSize v' = new_size \<and>
                 GetCapacity v' = new_size \<and> length (m_items v') = new_size \<and>
                 elems v' = elems v @ replicate (new_size - GetSize v) d))"
  using valid_cases[OF assms]
proof
  assume w: "well_formed v"
  have len: "length (m_items v) = m_capacity v" "m_size v \<le> m_capacity v"
    using w by (simp_all add: well_formed_def)
  show ?thesis
  proof (intro conjI impI)
    assume "new_size < GetSize v"
    then show "Resize d mv v new_size = Inr (v\<lparr>m_size := new_size\<rparr>)"
      by (simp add: Resize_shrink GetSize_def)
  next
    assume "GetSize v \<le> new_size \<and> new_size \<le> GetCapacity v"
    then have b: "m_size v \<le> new_size" "new_size \<le> m_capacity v"
      by (simp_all add: GetSize_def GetCapacity_def)
    show "\<exists>v'. Resize d mv v new_size = Inr v' \<and> GetSize v' = new_size \<and>
        GetCapacity v' = GetCapacity v \<and> length (m_items v') = length (m_items v) \<and>
        elems v' = elems v @ replicate (new_size - GetSize v) d"
      using Resize_in_place[OF w b, of d mv] b len
      by (simp add: GetSize_def GetCapacity_def elems_def)
  next
    assume "GetCapacity v < new_size"
    then have b: "m_capacity v < new_size" by (simp add: GetCapacity_def)
    show "\<exists>v'. Resize d mv v new_size = Inr v' \<and> GetSize v' = new_size \<and>
        GetCapacity v' = new_size \<and> length (m_items v') = new_size \<and>
        elems v' = elems v @ replicate (new_size - GetSize v) d"
      using Resize_realloc[OF w b, of d mv] b len
      by (simp add: GetSize_def GetCapacity_def elems_def)
  qed
next
  assume e: "m_size v = 0 \<and> m_capacity v = 0"
  show ?thesis using Resize_emptied[of v d mv new_size] e
    by (auto simp: GetSize_def GetCapacity_def elems_def)
qed

theorem Resize_three_cases_witness:
  "valid \<lparr>m_items = [1, 2, 3, 9 :: int], m_size = 3, m_capacity = 4\<rparr> \<and>
   Resize 0 id \<lparr>m_items = [1, 2, 3, 9 :: int], m_size = 3, m_capacity = 4\<rparr> 2 =
     Inr \<lparr>m_items = [1, 2, 3, 9], m_size = 2, m_capacity = 4\<rparr> \<and>
   (\<exists>v'. Resize 0 id \<lparr>m_items = [1, 2, 3, 9 :: int], m_size = 3, m_capacity = 4\<rparr> 4 = Inr v' \<and>
      GetSize v' = 4 \<and> GetCapacity v' = 4 \<and> elems v' = [1, 2, 3, 0]) \<and>
   (\<exists>v'. Resize 0 id \<lparr>m_items = [1, 2, 3, 9 :: int], m_size = 3, m_capacity = 4\<rparr> 6 = Inr v' \<and>
      GetSize v' = 6 \<and> GetCapacity v' = 6 \<and> elems v' = [1, 2, 3, 0, 0, 0])"
proof -
  let ?v = "\<lparr>m_items = [1, 2, 3, 9 :: int], m_size = 3, m_capacity = 4\<rparr>"
  have h: "valid ?v" by (simp add: valid_def)
  have e: "elems ?v = [1, 2, 3]" by (simp add: elems_def)
  have a: "Resize 0 id ?v 2 = Inr \<lparr>m_items = [1, 2, 3, 9], m_size = 2, m_capacity = 4\<rparr>"
    using Resize_three_cases[OF h, of 2 0 id] by (simp add: GetSize_def)
  have b: "\<exists>v'. Resize 0 id ?v 4 = Inr v' \<and> GetSize v' = 4 \<and> GetCapacity v' = 4 \<and>
      elems v' = [1, 2, 3, 0]"
    using Resize_three_cases[OF h, of 4 0 id] e by (auto simp: GetSize_def GetCapacity_def)
  have c: "\<exists>v'. Resize 0 id ?v 6 = Inr v' \<and> GetSize v' = 6 \<and> GetCapacity v' = 6 \<and>
      elems v' = [1, 2, 3, 0, 0, 0]"
    using Resize_three_cases[OF h, of 6 0 id] e
    by (auto simp: GetSize_def GetCapacity_def replicate_num)
  show ?thesis using h a b c by blast
qed

text \<open>
  Claim C7. The move constructor gives the new vector the block, the size and the capacity
  of its source, hence all its elements in order, and leaves the source with size 0 and
  capacity 0. Move assignment between two distinct objects does the same for its target
  and its source; move assignment of an object to itself changes nothing.
\<close>
theorem move_transfers:
  "fst (SimpleVector_move v) = v \<and> elems (fst (SimpleVector_move v)) = elems v \<and>
   GetSize (snd (SimpleVector_move v)) = 0 \<and> GetCapacity (snd (SimpleVector_move v)) = 0 \<and>
   (this \<noteq> rhs \<longrightarrow>
      GetSize (assign_move s this rhs this) = GetSize (s rhs) \<and>
      GetCapacity (assign_move s this rhs this) = GetCapacity (s rhs) \<and>
      m_items (assign_move s this rhs this) = m_items (s rhs) \<and>
      elems (assign_move s this rhs this) = elems (s rhs) \<and>
      GetSize (assign_move s this rhs rhs) = 0 \<and>
      GetCapacity (assign_move s this rhs rhs) = 0) \<and>
   assign_move s this this = s"
  by (simp add: SimpleVector_move_def ArrayPtr_move_def std_exchange_def assign_move_def
      ArrayPtr_swap_def GetSize_def GetCapacity_def elems_def)

theorem move_transfers_witness:
  "SimpleVector_move \<lparr>m_items = [1, 2, 0 :: int], m_size = 2, m_capacity = 3\<rparr> =
     (\<lparr>m_items = [1, 2, 0], m_size = 2, m_capacity = 3\<rparr>,
      \<lparr>m_items = [], m_size = 0, m_capacity = 0\<rparr>) \<and>
   assign_move (empty_store(1 := \<lparr>m_items = [1, 2, 0 :: int], m_size = 2, m_capacity = 3\<rparr>))
       0 1 0 =
     \<lparr>m_items = [1, 2, 0], m_size = 2, m_capacity = 3\<rparr> \<and>
   GetSize (assign_move
       (empty_store(1 := \<lparr>m_items = [1, 2, 0 :: int], m_size = 2, m_capacity = 3\<rparr>))
       0 1 1) = 0 \<and>
   GetCapacity (assign_move
       (empty_store(1 := \<lparr>m_items = [1, 2, 0 :: int], m_size = 2, m_capacity = 3\<rparr>))
       0 1 1) = 0"
proof -
  let ?v = "\<lparr>m_items = [1, 2, 0 :: int], m_size = 2, m_capacity = 3\<rparr>"
  let ?s = "empty_store(1 := ?v)"
  have n: "(0::nat) \<noteq> 1" by simp
  note t = move_transfers[of ?v 0 1 ?s]
  have a: "SimpleVector_move ?v = (?v, \<lparr>m_items = [], m_size = 0, m_capacity = 0\<rparr>)"
    by (simp add: SimpleVector_move_def ArrayPtr_move_def std_exchange_def ArrayPtr_null_def)
  have b: "assign_move ?s 0 1 0 = ?v"
    using t n by (intro SimpleVector.equality) (simp_all add: GetSize_def GetCapacity_def)
  show ?thesis using a b t n by simp
qed

text \<open>
  Claim C8. On a valid vector, \<^verbatim>\<open>Erase\<close> at a position below the size removes that element:
  the elements before it stay, the elements after it move one slot to the left, the size
  drops by one, and the capacity and the block's slot count stay. The returned iterator is
  the erased position, which is the end position when the last element was erased.
\<close>
theorem Erase_shifts_left:
  assumes "valid v" and "pos < GetSize v"
  shows "\<exists>v'. Erase mv v pos = Inr (v', pos) \<and>
           elems v' = take pos (elems v) @ drop (Suc pos) (elems v) \<and>
           GetSize v' = GetSize v - 1 \<and> GetCapacity v' = GetCapacity v \<and>
           length (m_items v') = length (m_items v) \<and>
           (if pos = GetSize v - 1 then pos = end_it v' else pos < end_it v')"
proof -
  have p: "pos < m_size v" using assms(2) by (simp add: GetSize_def)
  have w: "well_formed v" using valid_cases[OF assms(1)] p by auto
  from Erase_ok[OF w p, of mv]
  obtain v' where v': "Erase mv v pos = Inr (v', pos)" "m_size v' = m_size v - 1"
    "m_capacity v' = m_capacity v" "length (m_items v') = length (m_items v)"
    "elems v' = take pos (elems v) @ drop (Suc pos) (elems v)"
    by auto
  have "if pos = GetSize v - 1 then pos = end_it v' else pos < end_it v'"
    using v'(2) p by (auto simp: GetSize_def end_it_def)
  then show ?thesis using v' by (simp add: GetSize_def GetCapacity_def)
qed

theorem Erase_shifts_left_witness:
  "valid \<lparr>m_items = [1, 2, 3, 4 :: int], m_size = 4, m_capacity = 4\<rparr> \<and>
   (\<exists>v'. Erase id \<lparr>m_items = [1, 2, 3, 4 :: int], m_size = 4, m_capacity = 4\<rparr> 1 = Inr (v', 1) \<and>
      elems v' = [1, 3, 4] \<and> GetSize v' = 3 \<and> GetCapacity v' = 4)"
proof -
  let ?v = "\<lparr>m_items = [1, 2, 3, 4 :: int], m_size = 4, m_capacity = 4\<rparr>"
  have h: "valid ?v" by (simp add: valid_def)
  have p: "1 < GetSize ?v" by (simp add: GetSize_def)
  have e: "elems ?v = [1, 2, 3, 4]" by (simp add: elems_def)
  show ?thesis using h Erase_shifts_left[OF h p, of id] e
    by (auto simp: GetSize_def GetCapacity_def)
qed

text \<open>
  Claim C9. In a store whose objects all satisfy \<open>size \<le> capacity\<close>, every constructor and
  every modifying operation, called within its stated precondition, leaves a store whose
  objects all satisfy \<open>size \<le> capacity\<close> whenever it returns; the object a constructor
  builds is one of them. When the objects are valid, the operation does return.
\<close>
theorem size_le_capacity_preserved:
  assumes "store_inv s" and "pre c s"
  shows "(\<forall>s'. exec d mv c s = Inr s' \<longrightarrow> store_inv s') \<and>
         (store_valid s \<longrightarrow> (\<exists>s'. exec d mv c s = Inr s' \<and> store_inv s'))"
  using exec_preserves[OF assms] exec_returns[OF _ assms(2)] by blast

text \<open>
  The spec's end-to-end run: construct \<open>{1,2,3}\<close>, \<^verbatim>\<open>PushBack(4)\<close>, \<^verbatim>\<open>Erase(begin+1)\<close>,
  \<^verbatim>\<open>Insert(begin,0)\<close>, \<^verbatim>\<open>Resize(2)\<close>; the theorem is used at the last step.
\<close>
theorem size_le_capacity_preserved_witness:
  "store_inv
     (empty_store(0 := \<lparr>m_items = [0, 1, 3, 4, 0, 0 :: int], m_size = 4, m_capacity = 6\<rparr>)) \<and>
   store_valid
     (empty_store(0 := \<lparr>m_items = [0, 1, 3, 4, 0, 0 :: int], m_size = 4, m_capacity = 6\<rparr>)) \<and>
   pre (Call_Resize 0 2)
     (empty_store(0 := \<lparr>m_items = [0, 1, 3, 4, 0, 0 :: int], m_size = 4, m_capacity = 6\<rparr>)) \<and>
   exec_all 0 id [New_init 0 [1, 2, 3], Call_PushBack 0 4, Call_Erase 0 1, Call_Insert 0 0 0]
     empty_store =
     Inr (empty_store(0 := \<lparr>m_items = [0, 1, 3, 4, 0, 0 :: int], m_size = 4, m_capacity = 6\<rparr>)) \<and>
   exec 0 id (Call_Resize 0 2)
     (empty_store(0 := \<lparr>m_items = [0, 1, 3, 4, 0, 0 :: int], m_size = 4, m_capacity = 6\<rparr>)) =
     Inr (empty_store(0 := \<lparr>m_items = [0, 1, 3, 4, 0, 0 :: int], m_size = 2, m_capacity = 6\<rparr>)) \<and>
   store_inv
     (empty_store(0 := \<lparr>m_items = [0, 1, 3, 4, 0, 0 :: int], m_size = 2, m_capacity = 6\<rparr>))"
proof -
  let ?s = "empty_store(0 := \<lparr>m_items = [0, 1, 3, 4, 0, 0 :: int], m_size = 4, m_capacity = 6\<rparr>)"
  let ?t = "empty_store(0 := \<lparr>m_items = [0, 1, 3, 4, 0, 0 :: int], m_size = 2, m_capacity = 6\<rparr>)"
  have h1: "store_inv ?s" by (simp add: store_inv_def empty_store_def SimpleVector_default_def)
  have h2: "pre (Call_Resize 0 2) ?s" by simp
  have h3: "store_valid ?s"
    by (simp add: store_valid_def valid_def empty_store_def SimpleVector_default_def
        ArrayPtr_null_def)
  have n4: "Suc (Suc (Suc (Suc 0))) = 4" by simp
  have run: "exec_all 0 id
      [New_init 0 [1, 2, 3], Call_PushBack 0 4, Call_Erase 0 1, Call_Insert 0 0 0]
      empty_store = Inr ?s"
    by (simp add: SimpleVector_init_eq ebind_def PushBack_External Erase_def Insert_def
        size_t_mul_def ArrayPtr_sized_def ArrayPtr_swap_def slot_write_def end_it_def
        begin_it_def std_move.simps std_move_inplace.simps std_move_backward.simps
        replicate_num list_update_num n4)
  have e: "exec 0 id (Call_Resize 0 2) ?s = Inr ?t"
    by (simp add: Resize_def ebind_def)
  have "store_inv ?t"
    using size_le_capacity_preserved[OF h1 h2, of 0 id] e by blast
  then show ?thesis using h1 h2 h3 run e by blast
qed

text \<open>
  Claim C10. For two valid vectors over a linearly ordered element type: \<^verbatim>\<open>==\<close> holds
  exactly when the sizes are equal and the elements agree index by index, that is, when
  the sequences of live elements are equal; \<^verbatim>\<open><\<close> is the lexicographic order of these
  sequences (the order \<open>lexord\<close> of the element order, in which a proper prefix comes before
  its extensions); \<^verbatim>\<open>!=\<close>, \<^verbatim>\<open><=\<close>, \<^verbatim>\<open>>\<close> and \<^verbatim>\<open>>=\<close> are the relations derived from these
  two.
\<close>
theorem comparison_operators:
  fixes a b :: "('a::linorder) SimpleVector"
  assumes "valid a" and "valid b"
  shows "op_eq a b = Inr (GetSize a = GetSize b \<and> list_all2 (=) (elems a) (elems b)) \<and>
         op_eq a b = Inr (elems a = elems b) \<and>
         op_lt a b = Inr ((elems a, elems b) \<in> lexord {(x, y). x < y}) \<and>
         op_ne a b = Inr (elems a \<noteq> elems b) \<and>
         op_le a b = Inr ((elems a, elems b) \<in> lexord {(x, y). x < y} \<or> elems a = elems b) \<and>
         op_gt a b = Inr ((elems b, elems a) \<in> lexord {(x, y). x < y}) \<and>
         op_ge a b = Inr ((elems b, elems a) \<in> lexord {(x, y). x < y} \<or> elems a = elems b)"
proof -
  have la: "m_size a \<le> length (m_items a)" and lb: "m_size b \<le> length (m_items b)"
    using assms by (simp_all add: valid_live)
  have len: "length (elems a) = m_size a" "length (elems b) = m_size b"
    using la lb by (simp_all add: elems_def)
  have eq: "op_eq a b = Inr (elems a = elems b)"
  proof (cases "m_size a = m_size b")
    case True
    then show ?thesis using std_equal_eq[of 0 "m_size a" "m_items a" "m_items b"] la lb
      by (simp add: op_eq_def GetSize_def cbegin_def cend_def elems_def)
  next
    case False
    then have "elems a \<noteq> elems b" using len by metis
    then show ?thesis using False by (simp add: op_eq_def GetSize_def)
  qed
  have lt: "op_lt x y = Inr (elems x < elems y)"
    if "m_size x \<le> length (m_items x)" "m_size y \<le> length (m_items y)"
    for x y :: "'a SimpleVector"
    using std_lexicographical_compare_eq[of 0 "m_size x" "m_items x" "m_size y" "m_items y"] that
    by (simp add: op_lt_def cbegin_def cend_def elems_def)
  have sz: "(GetSize a = GetSize b \<and> list_all2 (=) (elems a) (elems b)) = (elems a = elems b)"
    using len by (auto simp: GetSize_def list.rel_eq)
  have le: "(\<not> elems b < elems a) = (elems a < elems b \<or> elems a = elems b)" by auto
  have ge: "(\<not> elems a < elems b) = (elems b < elems a \<or> elems a = elems b)" by auto
  show ?thesis
    unfolding sz using eq lt[OF la lb] lt[OF lb la] le ge
    by (simp add: op_ne_def op_le_def op_gt_def op_ge_def ebind_def list_less_def)
qed

text \<open>The spec's examples: \<open>[1,2] < [1,2,3]\<close> holds and \<open>[1,3] < [1,2,9]\<close> does not.\<close>
theorem comparison_operators_witness:
  "valid \<lparr>m_items = [1, 2 :: int], m_size = 2, m_capacity = 2\<rparr> \<and>
   valid \<lparr>m_items = [1, 2, 3 :: int], m_size = 3, m_capacity = 3\<rparr> \<and>
   valid \<lparr>m_items = [1, 3 :: int], m_size = 2, m_capacity = 2\<rparr> \<and>
   valid \<lparr>m_items = [1, 2, 9 :: int], m_size = 3, m_capacity = 3\<rparr> \<and>
   op_lt \<lparr>m_items = [1, 2 :: int], m_size = 2, m_capacity = 2\<rparr>
         \<lparr>m_items = [1, 2, 3], m_size = 3, m_capacity = 3\<rparr> = Inr True \<and>
   op_lt \<lparr>m_items = [1, 3 :: int], m_size = 2, m_capacity = 2\<rparr>
         \<lparr>m_items = [1, 2, 9], m_size = 3, m_capacity = 3\<rparr> = Inr False \<and>
   op_eq \<lparr>m_items = [1, 2 :: int], m_size = 2, m_capacity = 2\<rparr>
         \<lparr>m_items = [1, 2, 3], m_size = 3, m_capacity = 3\<rparr> = Inr False \<and>
   op_ge \<lparr>m_items = [1, 3 :: int], m_size = 2, m_capacity = 2\<rparr>
         \<lparr>m_items = [1, 2, 9], m_size = 3, m_capacity = 3\<rparr> = Inr True"
proof -
  let ?a = "\<lparr>m_items = [1, 2 :: int], m_size = 2, m_capacity = 2\<rparr>"
  let ?b = "\<lparr>m_items = [1, 2, 3 :: int], m_size = 3, m_capacity = 3\<rparr>"
  let ?c = "\<lparr>m_items = [1, 3 :: int], m_size = 2, m_capacity = 2\<rparr>"
  let ?d = "\<lparr>m_items = [1, 2, 9 :: int], m_size = 3, m_capacity = 3\<rparr>"
  have h: "valid ?a" "valid ?b" "valid ?c" "valid ?d"
    by (simp_all add: valid_def)
  have e: "elems ?a = [1, 2]" "elems ?b = [1, 2, 3]" "elems ?c = [1, 3]" "elems ?d = [1, 2, 9]"
    by (simp_all add: elems_def)
  have ab: "op_lt ?a ?b = Inr True \<and> op_eq ?a ?b = Inr False"
    using comparison_operators[OF h(1) h(2)] e by simp
  have cd: "op_lt ?c ?d = Inr False \<and> op_ge ?c ?d = Inr True"
    using comparison_operators[OF h(3) h(4)] e by simp
  show ?thesis using h ab cd by blast
qed

end
